theory Spec2Isabelle
  imports Complex_Main
begin

section \<open>Data model\<close>

text \<open>
  The program is the class \<open>GLM\<close> of \<open>glmhmm/glm.py\<close>: softmax observation
  probabilities (\<open>compObs\<close>), the negative log-likelihood (\<open>neglogli\<close>), the
  optimisation driver (\<open>fit\<close>) and the synthetic data generator
  (\<open>generate_data\<close>).

  Finite numbers are mathematical reals, and the operations on them are exact:
  rounding to the nearest float64 is not part of this model. The range of float64 is
  modelled where a result can leave it (section \<open>float64 values\<close>, \<open>compObs64\<close>,
  \<open>np_uniform\<close>). Exceptions are values of \<open>error\<close>; a function that can raise
  returns \<open>error + 'a\<close>, with \<open>Inl\<close> the exception.
\<close>

datatype error = TypeError | IndexError | ValueError | AssertionError | LinAlgError | OverflowError

text \<open>
  A two-dimensional numpy array is its list of rows together with its column count, so
  that the shape of an array with no rows is still known (\<open>shape = (length rows,
  ncols)\<close>). A one-dimensional array is a list.
\<close>

record 'a arr2 =
  ncols :: nat
  rows :: "'a list list"

definition nrows :: "'a arr2 \<Rightarrow> nat" where
  "nrows A = length (rows A)"

text \<open>Every array numpy builds is rectangular.\<close>

definition wf_arr :: "'a arr2 \<Rightarrow> bool" where
  "wf_arr A = list_all (\<lambda>r. length r = ncols A) (rows A)"

definition has_shape :: "'a arr2 \<Rightarrow> nat \<Rightarrow> nat \<Rightarrow> bool" where
  "has_shape A r k = (nrows A = r \<and> ncols A = k \<and> wf_arr A)"

definition cell :: "'a arr2 \<Rightarrow> nat \<Rightarrow> nat \<Rightarrow> 'a" where
  "cell A i j = rows A ! i ! j"

definition map_arr :: "('a \<Rightarrow> 'b) \<Rightarrow> 'a arr2 \<Rightarrow> 'b arr2" where
  "map_arr f A = \<lparr>ncols = ncols A, rows = map (map f) (rows A)\<rparr>"

text \<open>\<open>A.T\<close>: row \<open>j\<close> of the transpose is column \<open>j\<close> of \<open>A\<close>.\<close>

definition column :: "'a arr2 \<Rightarrow> nat \<Rightarrow> 'a list" where
  "column A j = map (\<lambda>r. r ! j) (rows A)"

definition transpose_arr :: "'a arr2 \<Rightarrow> 'a arr2" where
  "transpose_arr A = \<lparr>ncols = nrows A, rows = map (column A) [0..<ncols A]\<rparr>"

text \<open>
  \<open>x @ w\<close>: numpy raises ValueError unless the column count of \<open>x\<close> is the row
  count of \<open>w\<close>.
\<close>

definition dot :: "real list \<Rightarrow> real list \<Rightarrow> real" where
  "dot u v = sum_list (map2 (*) u v)"

definition matmul :: "real arr2 \<Rightarrow> real arr2 \<Rightarrow> error + real arr2" where
  "matmul x w =
     (if ncols x \<noteq> nrows w then Inl ValueError
      else Inr \<lparr>ncols = ncols w,
                rows = map (\<lambda>r. map (\<lambda>j. dot r (column w j)) [0..<ncols w]) (rows x)\<rparr>)"

text \<open>\<open>np.sum(A, axis=1)\<close>: the vector of row sums.\<close>

definition sum_axis1 :: "real arr2 \<Rightarrow> real list" where
  "sum_axis1 A = map sum_list (rows A)"

text \<open>
  Broadcasting of one axis: two lengths are compatible when they agree or one of them
  is 1, and the axis of length 1 is repeated. Incompatible shapes raise ValueError.
\<close>

definition bcast_ok :: "nat \<Rightarrow> nat \<Rightarrow> bool" where
  "bcast_ok a b = (a = b \<or> a = 1 \<or> b = 1)"

definition bdim :: "nat \<Rightarrow> nat \<Rightarrow> nat" where
  "bdim a b = (if a = 1 then b else a)"

definition broadcast_list :: "'a list \<Rightarrow> nat \<Rightarrow> 'a list" where
  "broadcast_list v k = (if length v = 1 then replicate k (hd v) else v)"

text \<open>
  \<open>np.divide(B, v)\<close> for a two-dimensional \<open>B\<close> and a vector \<open>v\<close>: \<open>v\<close> is
  broadcast along the last axis, so every row of \<open>B\<close> is divided elementwise by
  \<open>v\<close>. Division by zero is not an exception in numpy.
\<close>

definition np_divide :: "real arr2 \<Rightarrow> real list \<Rightarrow> error + real arr2" where
  "np_divide B v =
     (if bcast_ok (ncols B) (length v)
      then (let k = bdim (ncols B) (length v)
            in Inr \<lparr>ncols = k,
                     rows = map (\<lambda>r. map2 (/) (broadcast_list r k) (broadcast_list v k)) (rows B)\<rparr>)
      else Inl ValueError)"

text \<open>
  An elementwise operation on two two-dimensional arrays, both axes broadcast:
  \<open>np.multiply(A, B)\<close> and the comparison \<open>A < B\<close>.
\<close>

definition broadcast_arr :: "'a arr2 \<Rightarrow> nat \<Rightarrow> nat \<Rightarrow> 'a list list" where
  "broadcast_arr A r k = map (\<lambda>row. broadcast_list row k) (broadcast_list (rows A) r)"

definition np_binop :: "('a \<Rightarrow> 'a \<Rightarrow> 'b) \<Rightarrow> 'a arr2 \<Rightarrow> 'a arr2 \<Rightarrow> error + 'b arr2" where
  "np_binop f A B =
     (if bcast_ok (nrows A) (nrows B) \<and> bcast_ok (ncols A) (ncols B)
      then (let r = bdim (nrows A) (nrows B); k = bdim (ncols A) (ncols B)
            in Inr \<lparr>ncols = k,
                     rows = map2 (map2 f) (broadcast_arr A r k) (broadcast_arr B r k)\<rparr>)
      else Inl ValueError)"

definition np_multiply :: "real arr2 \<Rightarrow> real arr2 \<Rightarrow> error + real arr2" where
  "np_multiply A B = np_binop (*) A B"

definition np_less :: "real arr2 \<Rightarrow> real arr2 \<Rightarrow> error + bool arr2" where
  "np_less A B = np_binop (<) A B"

text \<open>\<open>np.sum(A)\<close> with no axis: the sum of all entries.\<close>

definition np_sum :: "real arr2 \<Rightarrow> real" where
  "np_sum A = sum_list (map sum_list (rows A))"

text \<open>
  \<open>np.round(z, 2)\<close>: \<open>z * 100\<close> rounded to the nearest integer, a tie going to the
  even one, divided by 100.
\<close>

definition rint :: "real \<Rightarrow> int" where
  "rint z =
     (let f = \<lfloor>z\<rfloor>; d = z - of_int f
      in if d < 1 / 2 then f else if 1 / 2 < d then f + 1 else if even f then f else f + 1)"

definition np_round2 :: "real \<Rightarrow> real" where
  "np_round2 z = of_int (rint (z * 100)) / 100"

text \<open>
  \<open>np.hstack((A, B))\<close> and \<open>np.vstack((A, B))\<close> of two-dimensional arrays: the
  other axis must agree, else ValueError.
\<close>

definition np_hstack :: "'a arr2 \<Rightarrow> 'a arr2 \<Rightarrow> error + 'a arr2" where
  "np_hstack A B =
     (if nrows A \<noteq> nrows B then Inl ValueError
      else Inr \<lparr>ncols = ncols A + ncols B, rows = map2 (@) (rows A) (rows B)\<rparr>)"

definition np_vstack :: "'a arr2 \<Rightarrow> 'a arr2 \<Rightarrow> error + 'a arr2" where
  "np_vstack A B =
     (if ncols A \<noteq> ncols B then Inl ValueError
      else Inr \<lparr>ncols = ncols A, rows = rows A @ rows B\<rparr>)"

definition np_full :: "nat \<Rightarrow> nat \<Rightarrow> 'a \<Rightarrow> 'a arr2" where
  "np_full r k v = \<lparr>ncols = k, rows = replicate r (replicate k v)\<rparr>"

text \<open>
  \<open>np.reshape(v, (r, k))\<close> of a vector, in row-major order. One dimension may be
  given as \<open>-1\<close> and is then inferred from the size; any other negative dimension,
  and a size that does not fit, raise ValueError.
\<close>

definition chop :: "'a list \<Rightarrow> nat \<Rightarrow> nat \<Rightarrow> 'a arr2" where
  "chop v r k = \<lparr>ncols = k, rows = map (\<lambda>i. take k (drop (i * k) v)) [0..<r]\<rparr>"

definition np_reshape :: "'a list \<Rightarrow> int \<Rightarrow> int \<Rightarrow> error + 'a arr2" where
  "np_reshape v r k =
     (if r = - 1 \<and> k = - 1 then Inl ValueError
      else if k = - 1
      then (if r \<le> 0 \<or> length v mod nat r \<noteq> 0 then Inl ValueError
            else Inr (chop v (nat r) (length v div nat r)))
      else if r = - 1
      then (if k \<le> 0 \<or> length v mod nat k \<noteq> 0 then Inl ValueError
            else Inr (chop v (length v div nat k) (nat k)))
      else if r < 0 \<or> k < 0 \<or> length v \<noteq> nat r * nat k then Inl ValueError
      else Inr (chop v (nat r) (nat k)))"

text \<open>\<open>A[:,1:]\<close> and \<open>np.ndarray.flatten\<close>.\<close>

definition drop_col0 :: "'a arr2 \<Rightarrow> 'a arr2" where
  "drop_col0 A = \<lparr>ncols = ncols A - 1, rows = map (drop 1) (rows A)\<rparr>"

definition flatten :: "'a arr2 \<Rightarrow> 'a list" where
  "flatten A = concat (rows A)"

text \<open>A failed step ends the call: the exception propagates.\<close>

definition and_then :: "error + 'a \<Rightarrow> ('a \<Rightarrow> error + 'b) \<Rightarrow> error + 'b" where
  "and_then r f = (case r of Inl e \<Rightarrow> Inl e | Inr v \<Rightarrow> f v)"

section \<open>float64 values\<close>


definition f64_overflow :: real where
  "f64_overflow = 2 ^ 1024 - 2 ^ 970"















section \<open>The fitter\<close>

text \<open>
  \<open>GLM(n, m, c)\<close> stores its three dimensions; \<open>neglogli\<close> and \<open>fit\<close> add the
  attributes \<open>ll\<close>, \<open>w_new\<close>, \<open>phi\<close> and \<open>variance\<close>, absent (\<open>None\<close>) until
  then. Dimensions are natural numbers.
\<close>

record GLM =
  glm_n :: nat
  glm_m :: nat
  glm_c :: nat
  glm_ll :: "real option"
  glm_w_new :: "real arr2 option"
  glm_phi :: "real arr2 option"
  glm_variance :: "real list option"

definition init :: "nat \<Rightarrow> nat \<Rightarrow> nat \<Rightarrow> GLM" where
  "init n m c = \<lparr>glm_n = n, glm_m = m, glm_c = c, glm_ll = None, glm_w_new = None,
                  glm_phi = None, glm_variance = None\<rparr>"

subsection \<open>compObs\<close>

text \<open>
  \<^verbatim>\<open>phi = np.exp(x@w)\<close>, and when \<open>normalize\<close> holds
  \<^verbatim>\<open>phi = np.divide(phi.T,np.sum(phi,axis=1)).T\<close>.
\<close>

definition compObs :: "real arr2 \<Rightarrow> real arr2 \<Rightarrow> bool \<Rightarrow> error + real arr2" where
  "compObs x w normalise =
     and_then (matmul x w) (\<lambda>s.
       let phi = map_arr exp s
       in if normalise
          then and_then (np_divide (transpose_arr phi) (sum_axis1 phi))
                 (\<lambda>q. Inr (transpose_arr q))
          else Inr phi)"

text \<open>
  A call \<open>self.compObs(x, w, **kwargs)\<close>. The signature is
  \<open>compObs(self, x, w, normalize=True)\<close>: after the two positional arguments the only
  keyword it accepts is \<open>normalize\<close>, and Python raises TypeError for any other.
\<close>

definition compObs_call :: "real arr2 \<Rightarrow> real arr2 \<Rightarrow> (string \<times> bool) list \<Rightarrow> error + real arr2" where
  "compObs_call x w kwargs =
     (if list_all (\<lambda>kv. fst kv = ''normalize'') kwargs
      then compObs x w (case map_of kwargs ''normalize'' of None \<Rightarrow> True | Some b \<Rightarrow> b)
      else Inl TypeError)"


subsection \<open>neglogli\<close>

text \<open>The weights reach \<open>neglogli\<close> as a vector (from the optimiser) or as a matrix.\<close>

datatype ndarray = Vec "real list" | Mat "real arr2"

text \<open>
  \<^verbatim>\<open>try: w.shape[1]\<close> / \<^verbatim>\<open>except IndexError: w = w[:,np.newaxis]\<close>: a vector becomes
  a column.
\<close>

definition as_matrix :: "ndarray \<Rightarrow> real arr2" where
  "as_matrix w = (case w of Vec v \<Rightarrow> \<lparr>ncols = 1, rows = map (\<lambda>a. [a]) v\<rparr> | Mat A \<Rightarrow> A)"

text \<open>
  The assertion of line 84:
  \<^verbatim>\<open>np.round(np.sum(np.divide(phi.T,norm)),2) == 1\<close>.
\<close>

definition sanity_check :: "real arr2 \<Rightarrow> real list \<Rightarrow> error + bool" where
  "sanity_check phi nrm =
     and_then (np_divide (transpose_arr phi) nrm) (\<lambda>q. Inr (np_round2 (np_sum q) = 1))"

text \<open>
  \<open>neglogli(self, x, w, y)\<close>, line by line. The call of \<open>compObs\<close> passes the keyword
  as the source spells it. \<open>np.log\<close> raises nothing (\<open>ln\<close> of a non-positive number is
  left unspecified here). The result is the returned value and the fitter with \<open>ll\<close>
  set.
\<close>

definition neglogli :: "GLM \<Rightarrow> real arr2 \<Rightarrow> ndarray \<Rightarrow> real arr2 \<Rightarrow> error + (real \<times> GLM)" where
  "neglogli g x w y =
     (let w2 = as_matrix w
      in and_then (compObs_call x w2 [(''normailize'', False)]) (\<lambda>phi.
           let nrm = sum_axis1 phi
           in and_then (np_multiply phi y) (\<lambda>py.
                let weightedObs = sum_axis1 py;
                    log_pyx = map2 (\<lambda>a b. ln a - ln b) weightedObs nrm
                in and_then (sanity_check phi nrm) (\<lambda>ok.
                     if \<not> ok then Inl AssertionError
                     else Inr (- sum_list log_pyx, g\<lparr>glm_ll := Some (- sum_list log_pyx)\<rparr>)))))"

subsection \<open>fit\<close>

text \<open>
  The numerical libraries \<open>fit\<close> calls are not part of the repository; they are
  parameters of the model. \<open>lbfgsb f x0\<close> is the search of
  \<open>scipy.optimize.minimize\<close> (method L-BFGS-B) once the objective has been evaluated
  at \<open>x0\<close>: the point it ends at, and the fitter as the objective's last evaluation
  left it. \<open>hessian_T f W\<close> is \<open>autograd.hessian(f)(W).T\<close> flattened, and
  \<open>linalg_inv\<close> is \<open>np.linalg.inv\<close>.
\<close>

record numlib =
  lbfgsb :: "(real list \<Rightarrow> error + (real \<times> GLM)) \<Rightarrow> real list \<Rightarrow> error + (real list \<times> GLM)"
  hessian_T :: "(real arr2 \<Rightarrow> error + (real \<times> GLM)) \<Rightarrow> real arr2 \<Rightarrow> error + real list"
  linalg_inv :: "real arr2 \<Rightarrow> error + real arr2"

text \<open>
  Both \<open>minimize\<close> and \<open>hessian\<close> evaluate the function at the point they are
  given before anything else, and an exception raised there propagates to the caller.
\<close>

definition minimize ::
  "numlib \<Rightarrow> (real list \<Rightarrow> error + (real \<times> GLM)) \<Rightarrow> real list \<Rightarrow> error + (real list \<times> GLM)" where
  "minimize lib f x0 = and_then (f x0) (\<lambda>_. lbfgsb lib f x0)"

definition hessian ::
  "numlib \<Rightarrow> (real arr2 \<Rightarrow> error + (real \<times> GLM)) \<Rightarrow> real arr2 \<Rightarrow> error + real list" where
  "hessian lib f W = and_then (f W) (\<lambda>_. hessian_T lib f W)"

definition diag :: "real arr2 \<Rightarrow> real list" where
  "diag A = map (\<lambda>i. cell A i i) [0..<min (nrows A) (ncols A)]"

text \<open>
  Lines 114 to 125 of \<open>fit\<close>, from the point \<open>xs\<close> the optimiser returned
  (\<open>OptimizeResult.x\<close>): \<open>w_new\<close> is a zero column beside \<open>xs\<close> reshaped to
  \<open>(m, c - 1)\<close>; \<open>phi\<close> is \<^verbatim>\<open>self.compObs(x,w)\<close>, with the \<open>w\<close> that was passed to
  \<open>fit\<close>; the variance is computed when \<open>compHess\<close> holds.
\<close>

definition fit_finish ::
  "numlib \<Rightarrow> GLM \<Rightarrow> real arr2 \<Rightarrow> real arr2 \<Rightarrow> real arr2 \<Rightarrow> bool \<Rightarrow> real list \<Rightarrow>
     error + ((real arr2 \<times> real arr2) \<times> GLM)" where
  "fit_finish lib g x w y compHess xs =
     and_then (np_reshape xs (int (glm_m g)) (int (glm_c g) - 1)) (\<lambda>F.
     and_then (np_hstack (np_full (glm_m g) 1 0) F) (\<lambda>w_new.
       let g1 = g\<lparr>glm_w_new := Some w_new\<rparr>
       in and_then (compObs_call x w []) (\<lambda>phi.
            let g2 = g1\<lparr>glm_phi := Some phi\<rparr>
            in if compHess
               then and_then (hessian lib (\<lambda>W. neglogli g2 x (Mat W) y) (drop_col0 w_new)) (\<lambda>H.
                    and_then (np_reshape H (int (glm_m g) * (int (glm_c g) - 1))
                                (int (glm_m g) * (int (glm_c g) - 1))) (\<lambda>H2.
                    and_then (linalg_inv lib H2) (\<lambda>Hi.
                      Inr ((w_new, phi), g2\<lparr>glm_variance := Some (map sqrt (diag Hi))\<rparr>))))
               else Inr ((w_new, phi), g2))))"

text \<open>
  \<open>fit(self, x, w, y, compHess)\<close>: the free columns of \<open>w\<close> flattened, the objective
  \<^verbatim>\<open>opt_log = lambda w: self.neglogli(x,w,y)\<close> minimised from there, then the lines
  above.
\<close>

definition fit ::
  "numlib \<Rightarrow> GLM \<Rightarrow> real arr2 \<Rightarrow> real arr2 \<Rightarrow> real arr2 \<Rightarrow> bool \<Rightarrow>
     error + ((real arr2 \<times> real arr2) \<times> GLM)" where
  "fit lib g x w y compHess =
     (let w_flat = flatten (drop_col0 w)
      in and_then (minimize lib (\<lambda>v. neglogli g x (Vec v) y) w_flat) (\<lambda>res.
           fit_finish lib (snd res) x w y compHess (fst res)))"

subsection \<open>generate_data\<close>

text \<open>
  The generator draws from numpy's global random state, which is not part of the
  repository. The model makes the source of randomness a parameter: \<open>random_sample R i\<close>
  is the \<open>i\<close>-th raw draw of the stream of uniform numbers behind
  \<open>np.random.uniform\<close> and \<open>np.random.rand\<close>, and \<open>random_int R lo hi i\<close> the
  \<open>i\<close>-th integer \<open>np.random.randint(lo, hi)\<close> delivers. \<open>numpy_rng\<close> is what
  numpy documents of them: raw draws lie in \<open>[0, 1)\<close>, integers in \<open>[lo, hi)\<close>.
\<close>

record rng =
  random_sample :: "nat \<Rightarrow> real"
  random_int :: "int \<Rightarrow> int \<Rightarrow> nat \<Rightarrow> int"

definition numpy_rng :: "rng \<Rightarrow> bool" where
  "numpy_rng R =
     ((\<forall>i. 0 \<le> random_sample R i \<and> random_sample R i < 1) \<and>
      (\<forall>lo hi i. lo < hi \<longrightarrow> lo \<le> random_int R lo hi i \<and> random_int R lo hi i < hi))"

text \<open>
  \<open>np.random.uniform(lo, high=hi, size=(r, k))\<close>, filled in row-major order from
  the raw draw number \<open>off\<close> on: each value is \<open>lo + (hi - lo) * random_sample()\<close>.
  numpy first computes the range \<open>hi - lo\<close> and raises OverflowError when it is not
  finite; a negative dimension raises ValueError. The value kept here is the unrounded
  one; numpy rounds the product and the sum to float64, which can move a value onto
  \<open>hi\<close> (rounding is monotone and leaves \<open>lo\<close> and \<open>hi\<close> where they are), so
  the bounds proved below are the closed ones.
\<close>

definition np_uniform :: "rng \<Rightarrow> nat \<Rightarrow> real \<Rightarrow> real \<Rightarrow> nat \<Rightarrow> int \<Rightarrow> error + real arr2" where
  "np_uniform R off lo hi r k =
     (if f64_overflow \<le> \<bar>hi - lo\<bar> then Inl OverflowError
      else if k < 0 then Inl ValueError
      else Inr \<lparr>ncols = nat k,
                rows = map (\<lambda>i. map (\<lambda>j. lo + (hi - lo) * random_sample R (off + i * nat k + j))
                                   [0..<nat k]) [0..<r]\<rparr>)"

text \<open>\<open>np.random.rand(r, 1)\<close>: a column of raw draws.\<close>

definition np_rand_col :: "rng \<Rightarrow> nat \<Rightarrow> nat \<Rightarrow> real arr2" where
  "np_rand_col R off r = \<lparr>ncols = 1, rows = map (\<lambda>i. [random_sample R (off + i)]) [0..<r]\<rparr>"

text \<open>
  \<open>np.random.randint(lo, high=hi, size=(r, k))\<close>, of dtype int64: an empty size
  gives the empty array; otherwise \<open>lo >= hi\<close>, \<open>lo\<close> below \<open>-2^63\<close> and
  \<open>hi\<close> above \<open>2^63\<close> raise ValueError.
\<close>

definition np_randint :: "rng \<Rightarrow> int \<Rightarrow> int \<Rightarrow> nat \<Rightarrow> nat \<Rightarrow> error + int arr2" where
  "np_randint R lo hi r k =
     (if r * k = 0 then Inr \<lparr>ncols = k, rows = replicate r []\<rparr>
      else if hi \<le> lo \<or> lo < - (2 ^ 63) \<or> 2 ^ 63 < hi then Inl ValueError
      else Inr \<lparr>ncols = k,
                rows = map (\<lambda>i. map (\<lambda>j. random_int R lo hi (i * k + j)) [0..<k]) [0..<r]\<rparr>)"

text \<open>\<open>w[:,1:] = U\<close>: the columns from 1 on are replaced; the shapes must agree.\<close>

definition set_cols_from1 :: "'a arr2 \<Rightarrow> 'a arr2 \<Rightarrow> error + 'a arr2" where
  "set_cols_from1 A U =
     (if nrows U \<noteq> nrows A \<or> ncols U \<noteq> ncols A - 1 then Inl ValueError
      else Inr \<lparr>ncols = ncols A, rows = map2 (\<lambda>r u. take 1 r @ u) (rows A) (rows U)\<rparr>)"

text \<open>\<open>phi.cumsum(axis=1)\<close>: the running sums of every row.\<close>

fun cumsum_from :: "real \<Rightarrow> real list \<Rightarrow> real list" where
  "cumsum_from a [] = []"
| "cumsum_from a (v # vs) = (a + v) # cumsum_from (a + v) vs"

definition cumsum_axis1 :: "real arr2 \<Rightarrow> real arr2" where
  "cumsum_axis1 A = \<lparr>ncols = ncols A, rows = map (cumsum_from 0) (rows A)\<rparr>"

text \<open>
  \<open>B.argmax(axis=1)\<close> of a Boolean array: in every row the index of the first
  \<open>True\<close>, or 0 when the row has none. A row of length 0 raises ValueError.
\<close>

fun first_true :: "bool list \<Rightarrow> nat" where
  "first_true [] = 0"
| "first_true (b # bs) = (if b then 0 else Suc (first_true bs))"

definition argmax_bool :: "bool list \<Rightarrow> nat" where
  "argmax_bool bs = (if first_true bs < length bs then first_true bs else 0)"

definition argmax_axis1 :: "bool arr2 \<Rightarrow> error + nat list" where
  "argmax_axis1 B = (if ncols B = 0 then Inl ValueError else Inr (map argmax_bool (rows B)))"

text \<open>
  \<open>A[is, ks] = v\<close> with two index vectors: they are broadcast against each other, and
  the cell \<open>(is[p], ks[p])\<close> is set for every \<open>p\<close>. An index out of range, and
  vectors that do not broadcast, raise IndexError.
\<close>

definition set_cell :: "'a \<Rightarrow> nat \<times> nat \<Rightarrow> 'a arr2 \<Rightarrow> 'a arr2" where
  "set_cell v ik A = A\<lparr>rows := (rows A)[fst ik := (rows A ! fst ik)[snd ik := v]]\<rparr>"

definition set_cells :: "'a arr2 \<Rightarrow> nat list \<Rightarrow> nat list \<Rightarrow> 'a \<Rightarrow> error + 'a arr2" where
  "set_cells A is ks v =
     (if \<not> bcast_ok (length is) (length ks) then Inl IndexError
      else (let L = bdim (length is) (length ks);
                ps = zip (broadcast_list is L) (broadcast_list ks L)
            in if list_ex (\<lambda>ik. nrows A \<le> fst ik \<or> ncols A \<le> snd ik) ps then Inl IndexError
               else Inr (fold (set_cell v) ps A)))"

text \<open>
  The bias branch, lines 158 and 159. \<^verbatim>\<open>x[:,1,np.newaxis]\<close> reads column 1 of \<open>x\<close>
  and raises IndexError when \<open>x\<close> has fewer than two columns; \<^verbatim>\<open>w[0,:]\<close> reads row 0 of
  \<open>w\<close>. The new first row of \<open>w\<close> is a vector of ones times \<open>[0, b]\<close>, with
  \<open>b\<close> drawn like the weights.
\<close>

definition add_bias ::
  "rng \<Rightarrow> nat \<Rightarrow> GLM \<Rightarrow> real \<times> real \<Rightarrow> int arr2 \<Rightarrow> real arr2 \<Rightarrow> error + (int arr2 \<times> real arr2)" where
  "add_bias R off g wdist x w =
     (if ncols x \<le> 1 then Inl IndexError
      else and_then (np_hstack (np_full (nrows x) 1 1) x) (\<lambda>x1.
           if nrows w = 0 then Inl IndexError
           else and_then (np_uniform R off (fst wdist) (snd wdist) 1 (int (glm_c g) - 1)) (\<lambda>b.
                and_then (np_hstack (np_full 1 1 0) b) (\<lambda>zb.
                and_then (np_multiply (np_full 1 (ncols w) 1) zb) (\<lambda>row0.
                and_then (np_vstack row0 w) (\<lambda>w1. Inr (x1, w1)))))))"

text \<open>
  \<open>generate_data(self, wdist, xdist, bias)\<close>. The raw draws are consumed in the
  order of the calls: the weights, the bias row, the samples \<open>undist\<close>.
\<close>

definition generate_data ::
  "rng \<Rightarrow> GLM \<Rightarrow> real \<times> real \<Rightarrow> int \<times> int \<Rightarrow> bool \<Rightarrow>
     error + (int arr2 \<times> real arr2 \<times> real arr2)" where
  "generate_data R g wdist xdist bias =
     (let n = glm_n g; m = glm_m g; c = glm_c g;
          off_b = m * (c - 1);
          off_u = (if bias then off_b + (c - 1) else off_b)
      in and_then (np_uniform R 0 (fst wdist) (snd wdist) m (int c - 1)) (\<lambda>U.
         and_then (set_cols_from1 (np_full m c 0) U) (\<lambda>w0.
         and_then (np_randint R (fst xdist) (snd xdist) n m) (\<lambda>x0.
         and_then (if bias then add_bias R off_b g wdist x0 w0 else Inr (x0, w0)) (\<lambda>xw.
         and_then (compObs_call (map_arr real_of_int (fst xw)) (snd xw) []) (\<lambda>phi.
           let cumdist = cumsum_axis1 phi;
               undist = np_rand_col R off_u (nrows cumdist)
           in and_then (np_less undist cumdist) (\<lambda>B.
              and_then (argmax_axis1 B) (\<lambda>obs.
              and_then (set_cells (np_full n c 0) [0..<n] obs 1) (\<lambda>y.
                Inr (fst xw, snd xw, y))))))))))"

section \<open>Vocabulary of the claims\<close>

text \<open>
  The entries of \<open>x\<close> and \<open>w\<close> that \<open>generate_data\<close> draws at random: of \<open>x\<close>
  all entries, but for the column of ones in front when \<open>bias\<close> holds; of \<open>w\<close> the
  columns from 1 on (column 0 is the reference class).
\<close>

definition sampled_features :: "bool \<Rightarrow> int arr2 \<Rightarrow> int list" where
  "sampled_features bias x = concat (map (\<lambda>r. if bias then drop 1 r else r) (rows x))"

definition sampled_weights :: "real arr2 \<Rightarrow> real list" where
  "sampled_weights w = concat (map (drop 1) (rows w))"

text \<open>
  A random source for the concrete runs below: the raw draws are \<open>1/7\<close> for the first
  three and \<open>3/4\<close> afterwards, and \<open>randint\<close> always delivers its lower bound.
\<close>

definition R1 :: rng where
  "R1 = \<lparr>random_sample = (\<lambda>i. if i < 3 then 1 / 7 else 3 / 4), random_int = (\<lambda>lo hi i. lo)\<rparr>"


section \<open>Shapes and entries of the array operations\<close>

lemma f64_overflow_big: "2 ^ 1023 < f64_overflow"
  by (simp add: f64_overflow_def)

lemma f64_overflow_1000: "1000 < f64_overflow"
proof -
  have "(1000::real) < 2 ^ 10" by simp
  also have "\<dots> \<le> 2 ^ 1023" by (rule power_increasing) simp_all
  finally show ?thesis using f64_overflow_big by simp
qed

lemma has_shape_map_arr: "has_shape A r k \<Longrightarrow> has_shape (map_arr f A) r k"
  by (simp add: has_shape_def map_arr_def nrows_def wf_arr_def list_all_iff)

lemma matmul_shape:
  assumes "has_shape x r k" and "has_shape w k p"
  shows "\<exists>s. matmul x w = Inr s \<and> has_shape s r p"
  using assms
  by (simp add: matmul_def has_shape_def nrows_def wf_arr_def list_all_iff)

lemma broadcast_list_same: "length v = k \<Longrightarrow> broadcast_list v k = v"
  by (cases v) (auto simp: broadcast_list_def)

lemma sum_list_map2_nth:
  fixes u v :: "real list"
  assumes "length u = k" "length v = k"
  shows "sum_list (map2 (*) u v) = (\<Sum>l<k. u ! l * v ! l)"
proof -
  have "sum_list (map2 (*) u v) = (\<Sum>l = 0..<length (map2 (*) u v). map2 (*) u v ! l)"
    by (rule sum_list_sum_nth)
  also have "\<dots> = (\<Sum>l<k. u ! l * v ! l)"
    using assms by (simp add: atLeast0LessThan)
  finally show ?thesis .
qed

lemma has_shape_row:
  "has_shape A r k \<Longrightarrow> i < r \<Longrightarrow> length (rows A ! i) = k"
  by (simp add: has_shape_def nrows_def wf_arr_def list_all_length)

lemma matmul_cells:
  assumes x: "has_shape x r k" and w: "has_shape w k p"
  shows "\<exists>s. matmul x w = Inr s \<and> has_shape s r p \<and>
           (\<forall>i<r. \<forall>j<p. cell s i j = (\<Sum>l<k. cell x i l * cell w l j))"
proof -
  let ?s = "\<lparr>ncols = ncols w,
             rows = map (\<lambda>r. map (\<lambda>j. dot r (column w j)) [0..<ncols w]) (rows x)\<rparr>"
  have eq: "matmul x w = Inr ?s"
    using x w by (simp add: matmul_def has_shape_def)
  have sh: "has_shape ?s r p"
    using x w by (simp add: has_shape_def nrows_def wf_arr_def list_all_iff)
  have cells: "cell ?s i j = (\<Sum>l<k. cell x i l * cell w l j)" if "i < r" "j < p" for i j
  proof -
    have lr: "length (rows x ! i) = k" using x that by (simp add: has_shape_row)
    have lc: "length (column w j) = k" using w by (simp add: column_def has_shape_def nrows_def)
    have "cell ?s i j = dot (rows x ! i) (column w j)"
      using x w that by (simp add: cell_def has_shape_def nrows_def)
    also have "\<dots> = (\<Sum>l<k. rows x ! i ! l * column w j ! l)"
      unfolding dot_def using lr lc by (rule sum_list_map2_nth)
    also have "\<dots> = (\<Sum>l<k. cell x i l * cell w l j)"
      using w by (intro sum.cong) (simp_all add: column_def cell_def has_shape_def nrows_def)
    finally show ?thesis .
  qed
  show ?thesis using eq sh cells by blast
qed


lemma np_divide_T:
  assumes phi: "has_shape phi r p"
  shows "\<exists>q. np_divide (transpose_arr phi) (sum_axis1 phi) = Inr q \<and>
           transpose_arr q =
             \<lparr>ncols = p,
              rows = map (\<lambda>i. map (\<lambda>j. cell phi i j / sum_list (rows phi ! i)) [0..<p]) [0..<r]\<rparr>"
proof -
  let ?v = "sum_axis1 phi"
  let ?B = "transpose_arr phi"
  have lv: "length ?v = r" using phi by (simp add: sum_axis1_def has_shape_def nrows_def)
  have nB: "ncols ?B = r" using phi by (simp add: transpose_arr_def has_shape_def)
  have bv: "broadcast_list ?v r = ?v" using lv by (rule broadcast_list_same)
  let ?q = "\<lparr>ncols = r, rows = map (\<lambda>row. map2 (/) (broadcast_list row r) ?v) (rows ?B)\<rparr>"
  have eq: "np_divide ?B ?v = Inr ?q"
    using lv nB bv by (simp add: np_divide_def Let_def bcast_ok_def bdim_def)
  have rowsB: "rows ?B = map (column phi) [0..<p]"
    using phi by (simp add: transpose_arr_def has_shape_def)
  have lcol: "length (column phi j) = r" for j
    using phi by (simp add: column_def has_shape_def nrows_def)
  have bcol: "broadcast_list (column phi j) r = column phi j" for j
    using lcol[of j] by (rule broadcast_list_same)
  have rowsq: "rows ?q = map (\<lambda>j. map2 (/) (column phi j) ?v) [0..<p]"
    by (simp add: rowsB bcol)
  have "column ?q i = map (\<lambda>j. cell phi i j / sum_list (rows phi ! i)) [0..<p]" if "i < r" for i
  proof -
    have "column ?q i = map (\<lambda>j. map2 (/) (column phi j) ?v ! i) [0..<p]"
      unfolding column_def rowsq by (simp add: comp_def)
    also have "\<dots> = map (\<lambda>j. cell phi i j / sum_list (rows phi ! i)) [0..<p]"
      using that lv lcol phi
      by (simp add: column_def cell_def sum_axis1_def has_shape_def nrows_def)
    finally show ?thesis .
  qed
  then have "map (column ?q) [0..<r] =
      map (\<lambda>i. map (\<lambda>j. cell phi i j / sum_list (rows phi ! i)) [0..<p]) [0..<r]"
    by simp
  moreover have "nrows ?q = p" by (simp add: nrows_def rowsB)
  ultimately have "transpose_arr ?q =
             \<lparr>ncols = p,
              rows = map (\<lambda>i. map (\<lambda>j. cell phi i j / sum_list (rows phi ! i)) [0..<p]) [0..<r]\<rparr>"
    by (simp add: transpose_arr_def)
  with eq show ?thesis by blast
qed


lemma row_sum_cells:
  fixes A :: "real arr2"
  assumes "has_shape A r p" "i < r"
  shows "sum_list (rows A ! i) = (\<Sum>j<p. cell A i j)"
proof -
  have "length (rows A ! i) = p" using assms by (rule has_shape_row)
  then show ?thesis
    by (simp add: sum_list_sum_nth cell_def atLeast0LessThan)
qed

lemma compObs_unnormalized_cells:
  assumes x: "has_shape x r k" and w: "has_shape w k p"
  shows "\<exists>phi. compObs x w False = Inr phi \<and> has_shape phi r p \<and>
           (\<forall>i<r. \<forall>j<p. cell phi i j = exp (\<Sum>l<k. cell x i l * cell w l j))"
proof -
  from matmul_cells[OF x w] obtain s where
    s: "matmul x w = Inr s" "has_shape s r p"
       "\<forall>i<r. \<forall>j<p. cell s i j = (\<Sum>l<k. cell x i l * cell w l j)"
    by blast
  have "compObs x w False = Inr (map_arr exp s)"
    using s(1) by (simp add: compObs_def and_then_def)
  moreover have "has_shape (map_arr exp s) r p"
    using s(2) by (rule has_shape_map_arr)
  moreover have "cell (map_arr exp s) i j = exp (\<Sum>l<k. cell x i l * cell w l j)"
    if "i < r" "j < p" for i j
  proof -
    have "length (rows s ! i) = p" using s(2) that(1) by (rule has_shape_row)
    then have "cell (map_arr exp s) i j = exp (cell s i j)"
      using s(2) that by (simp add: map_arr_def cell_def has_shape_def nrows_def)
    then show ?thesis using s(3) that by simp
  qed
  ultimately show ?thesis by blast
qed

lemma compObs_normalized_cells:
  assumes x: "has_shape x r k" and w: "has_shape w k p"
  shows "\<exists>phi. compObs x w True = Inr phi \<and> has_shape phi r p \<and>
           (\<forall>i<r. \<forall>j<p. cell phi i j =
               exp (\<Sum>l<k. cell x i l * cell w l j) /
               (\<Sum>j'<p. exp (\<Sum>l<k. cell x i l * cell w l j')))"
proof -
  from compObs_unnormalized_cells[OF x w] obtain u where
    u: "compObs x w False = Inr u" "has_shape u r p"
       "\<forall>i<r. \<forall>j<p. cell u i j = exp (\<Sum>l<k. cell x i l * cell w l j)"
    by blast
  from np_divide_T[OF u(2)] obtain q where
    q: "np_divide (transpose_arr u) (sum_axis1 u) = Inr q"
       "transpose_arr q =
             \<lparr>ncols = p,
              rows = map (\<lambda>i. map (\<lambda>j. cell u i j / sum_list (rows u ! i)) [0..<p]) [0..<r]\<rparr>"
    by blast
  let ?phi = "transpose_arr q"
  obtain s where s: "matmul x w = Inr s" using matmul_shape[OF x w] by blast
  have us: "u = map_arr exp s" using u(1) s by (simp add: compObs_def and_then_def)
  have eq: "compObs x w True = Inr ?phi"
    using s q(1) us by (simp add: compObs_def and_then_def)
  have sh: "has_shape ?phi r p"
    by (simp add: q(2) has_shape_def nrows_def wf_arr_def list_all_iff)
  have "cell ?phi i j = exp (\<Sum>l<k. cell x i l * cell w l j) /
               (\<Sum>j'<p. exp (\<Sum>l<k. cell x i l * cell w l j'))"
    if "i < r" "j < p" for i j
  proof -
    have "cell ?phi i j = cell u i j / sum_list (rows u ! i)"
      using that by (simp add: q(2) cell_def)
    also have "sum_list (rows u ! i) = (\<Sum>j'<p. cell u i j')"
      using u(2) that(1) by (rule row_sum_cells)
    also have "\<dots> = (\<Sum>j'<p. exp (\<Sum>l<k. cell x i l * cell w l j'))"
      using u(3) that(1) by (intro sum.cong) simp_all
    finally show ?thesis using u(3) that by simp
  qed
  with eq sh show ?thesis by blast
qed

lemma compObs_row_sums:
  assumes x: "has_shape x r k" and w: "has_shape w k p" and p: "0 < p"
  shows "\<exists>phi. compObs x w True = Inr phi \<and> has_shape phi r p \<and>
           (\<forall>i<r. sum_list (rows phi ! i) = 1)"
proof -
  from compObs_normalized_cells[OF x w] obtain phi where
    phi: "compObs x w True = Inr phi" "has_shape phi r p"
      "\<forall>i<r. \<forall>j<p. cell phi i j =
               exp (\<Sum>l<k. cell x i l * cell w l j) /
               (\<Sum>j'<p. exp (\<Sum>l<k. cell x i l * cell w l j'))"
    by blast
  have "sum_list (rows phi ! i) = 1" if "i < r" for i
  proof -
    let ?e = "\<lambda>j. exp (\<Sum>l<k. cell x i l * cell w l j)"
    let ?Z = "\<Sum>j'<p. ?e j'"
    have pos: "0 < ?Z" using p by (intro sum_pos) (auto simp: lessThan_empty_iff)
    have "sum_list (rows phi ! i) = (\<Sum>j<p. cell phi i j)"
      using phi(2) that by (rule row_sum_cells)
    also have "\<dots> = (\<Sum>j<p. ?e j / ?Z)"
      using phi(3) that by (intro sum.cong) simp_all
    also have "\<dots> = ?Z / ?Z" by (rule sum_divide_distrib[symmetric])
    also have "\<dots> = 1" using pos by simp
    finally show ?thesis .
  qed
  with phi(1,2) show ?thesis by blast
qed

lemmas np_defs = and_then_def nrows_def np_full_def np_hstack_def np_vstack_def np_multiply_def
  np_less_def np_binop_def bcast_ok_def bdim_def broadcast_arr_def broadcast_list_def
  matmul_def map_arr_def dot_def column_def transpose_arr_def np_divide_def sum_axis1_def
  compObs_def compObs_call_def

lemmas gen_defs = generate_data_def init_def np_uniform_def set_cols_from1_def np_randint_def
  add_bias_def cumsum_axis1_def np_rand_col_def argmax_axis1_def argmax_bool_def
  set_cells_def set_cell_def

section \<open>The steps of a call, one at a time\<close>

lemma and_then_Inr:
  "and_then r f = Inr v \<Longrightarrow> \<exists>u. r = Inr u \<and> f u = Inr v"
  by (cases r) (simp_all add: and_then_def)

lemma compObs_call_default: "compObs_call x w [] = compObs x w True"
  by (simp add: compObs_call_def)

lemma compObs_nrows:
  assumes "compObs x w b = Inr phi"
  shows "nrows phi = nrows x \<and> ncols phi = ncols w"
proof -
  from assms obtain s where s: "matmul x w = Inr s"
    and r: "(let phi = map_arr exp s
       in if b
          then and_then (np_divide (transpose_arr phi) (sum_axis1 phi))
                 (\<lambda>q. Inr (transpose_arr q))
          else Inr phi) = Inr phi"
    unfolding compObs_def by (blast dest: and_then_Inr)
  from s have s1: "nrows s = nrows x" "ncols s = ncols w"
    by (auto simp: matmul_def nrows_def split: if_splits)
  let ?e = "map_arr exp s"
  have e: "nrows ?e = nrows x" "ncols ?e = ncols w"
    using s1 by (simp_all add: map_arr_def nrows_def)
  show ?thesis
  proof (cases b)
    case False
    with r have "phi = ?e" by (simp add: Let_def)
    with e show ?thesis by simp
  next
    case True
    with r obtain q where q: "np_divide (transpose_arr ?e) (sum_axis1 ?e) = Inr q"
      and p: "phi = transpose_arr q"
      by (auto simp: Let_def dest: and_then_Inr)
    have "length (sum_axis1 ?e) = nrows x" using e by (simp add: sum_axis1_def nrows_def)
    moreover have "ncols (transpose_arr ?e) = nrows x" "nrows (transpose_arr ?e) = ncols w"
      using e by (simp_all add: transpose_arr_def nrows_def)
    ultimately have "ncols q = nrows x" "nrows q = ncols w"
      using q by (auto simp: np_divide_def Let_def bdim_def nrows_def split: if_splits)
    then show ?thesis using p by (simp add: transpose_arr_def nrows_def)
  qed
qed

lemma np_randint_nrows: "np_randint R lo hi r k = Inr x \<Longrightarrow> nrows x = r \<and> ncols x = k"
  by (auto simp: np_randint_def nrows_def split: if_splits)

lemma add_bias_nrows:
  assumes "add_bias R off g wdist x w = Inr (x1, w1)"
  shows "nrows x1 = nrows x"
  using assms
  by (auto simp: add_bias_def np_hstack_def nrows_def np_full_def
      split: if_splits dest!: and_then_Inr)

lemma np_less_nrows:
  "np_less A B = Inr C \<Longrightarrow> nrows A = nrows B \<Longrightarrow> nrows C = nrows A"
  by (auto simp: np_less_def np_binop_def Let_def nrows_def bdim_def broadcast_arr_def
      broadcast_list_same split: if_splits)


lemma fold_set_cell_rows:
  "a + length ks \<le> nrows A \<Longrightarrow>
   rows (fold (set_cell v) (zip [a..<a + length ks] ks) A) =
     take a (rows A) @ map2 (\<lambda>r k. r[k := v]) (take (length ks) (drop a (rows A))) ks
       @ drop (a + length ks) (rows A)"
proof (induction ks arbitrary: a A)
  case Nil
  then show ?case by simp
next
  case (Cons k ks)
  let ?A = "set_cell v (a, k) A"
  have a: "a < length (rows A)" using Cons.prems by (simp add: nrows_def)
  have up: "[a..<a + length (k # ks)] = a # [Suc a..<Suc a + length ks]"
    by (subst upt_rec) simp
  have rA: "rows ?A = (rows A)[a := (rows A ! a)[k := v]]"
    by (simp add: set_cell_def)
  have le: "Suc a + length ks \<le> nrows ?A"
    using Cons.prems by (simp add: nrows_def rA)
  have "rows (fold (set_cell v) (zip [a..<a + length (k # ks)] (k # ks)) A) =
        rows (fold (set_cell v) (zip [Suc a..<Suc a + length ks] ks) ?A)"
    unfolding up by simp
  also have "\<dots> = take (Suc a) (rows ?A) @
        map2 (\<lambda>r k. r[k := v]) (take (length ks) (drop (Suc a) (rows ?A))) ks
        @ drop (Suc a + length ks) (rows ?A)"
    using le by (rule Cons.IH)
  also have "take (Suc a) (rows ?A) = take a (rows A) @ [(rows A ! a)[k := v]]"
    using a by (simp add: rA take_Suc_conv_app_nth)
  also have "drop (Suc a) (rows ?A) = drop (Suc a) (rows A)"
    by (simp add: rA)
  also have "drop (Suc a + length ks) (rows ?A) = drop (a + length (k # ks)) (rows A)"
    by (simp add: rA)
  finally show ?case
    using a by (simp add: Cons_nth_drop_Suc[symmetric] drop_Suc take_Suc_Cons tl_drop)
qed


lemma fold_set_cell_ncols: "ncols (fold (set_cell v) ps A) = ncols A"
  by (induction ps arbitrary: A) (simp_all add: set_cell_def)

lemma set_cells_rows:
  assumes ok: "set_cells A [0..<r] ks v = Inr Y" and len: "length ks = r" and nr: "nrows A = r"
  shows "ncols Y = ncols A \<and> rows Y = map2 (\<lambda>row k. row[k := v]) (rows A) ks \<and>
         (\<forall>k\<in>set ks. k < ncols A)"
proof -
  have b1: "broadcast_list [0..<r] r = [0..<r]" by (rule broadcast_list_same) simp
  have b2: "broadcast_list ks r = ks" using len by (rule broadcast_list_same)
  have L: "bdim (length [0..<r]) (length ks) = r" using len by (simp add: bdim_def)
  from ok have nex: "\<not> list_ex (\<lambda>ik. nrows A \<le> fst ik \<or> ncols A \<le> snd ik) (zip [0..<r] ks)"
    and Y: "Y = fold (set_cell v) (zip [0..<r] ks) A"
    unfolding set_cells_def Let_def L b1 b2 by (auto split: if_splits)
  have "\<forall>k\<in>set ks. k < ncols A"
  proof
    fix k assume "k \<in> set ks"
    then obtain i where i: "i < length ks" "ks ! i = k" by (auto simp: in_set_conv_nth)
    then have "(i, k) \<in> set (zip [0..<r] ks)"
      using len by (auto simp: in_set_zip intro!: exI[of _ i])
    with nex show "k < ncols A" by (auto simp: list_ex_iff)
  qed
  moreover have "ncols Y = ncols A" using Y by (simp add: fold_set_cell_ncols)
  moreover have "rows Y = map2 (\<lambda>row k. row[k := v]) (rows A) ks"
  proof -
    have "0 + length ks \<le> nrows A" using len nr by simp
    from fold_set_cell_rows[OF this, of v] show ?thesis
      using Y len nr by (simp add: nrows_def)
  qed
  ultimately show ?thesis by blast
qed

lemma generate_data_steps:
  assumes "generate_data R g wdist xdist bias = Inr (x, w, y)"
  shows "\<exists>U w0 x0 phi B obs.
      np_uniform R 0 (fst wdist) (snd wdist) (glm_m g) (int (glm_c g) - 1) = Inr U \<and>
      set_cols_from1 (np_full (glm_m g) (glm_c g) 0) U = Inr w0 \<and>
      np_randint R (fst xdist) (snd xdist) (glm_n g) (glm_m g) = Inr x0 \<and>
      (if bias then add_bias R (glm_m g * (glm_c g - 1)) g wdist x0 w0 else Inr (x0, w0)) = Inr (x, w) \<and>
      compObs (map_arr real_of_int x) w True = Inr phi \<and>
      np_less (np_rand_col R (if bias then glm_m g * (glm_c g - 1) + (glm_c g - 1)
                              else glm_m g * (glm_c g - 1)) (nrows (cumsum_axis1 phi)))
              (cumsum_axis1 phi) = Inr B \<and>
      argmax_axis1 B = Inr obs \<and>
      set_cells (np_full (glm_n g) (glm_c g) 0) [0..<glm_n g] obs 1 = Inr y"
  using assms unfolding generate_data_def Let_def compObs_call_default
  by (fastforce dest!: and_then_Inr)


lemma generate_data_obs:
  assumes "generate_data R g wdist xdist bias = Inr (x, w, y)"
  shows "\<exists>obs. length obs = glm_n g \<and> (\<forall>k\<in>set obs. k < glm_c g) \<and>
           ncols y = glm_c g \<and>
           rows y = map (\<lambda>k. (replicate (glm_c g) 0)[k := 1]) obs"
proof -
  let ?n = "glm_n g" and ?c = "glm_c g"
  from generate_data_steps[OF assms] obtain U w0 x0 phi B obs off where
    x0: "np_randint R (fst xdist) (snd xdist) ?n (glm_m g) = Inr x0"
    and xw: "(if bias then add_bias R (glm_m g * (?c - 1)) g wdist x0 w0 else Inr (x0, w0)) = Inr (x, w)"
    and phi: "compObs (map_arr real_of_int x) w True = Inr phi"
    and B: "np_less (np_rand_col R off (nrows (cumsum_axis1 phi))) (cumsum_axis1 phi) = Inr B"
    and obs: "argmax_axis1 B = Inr obs"
    and y: "set_cells (np_full ?n ?c 0) [0..<?n] obs 1 = Inr y"
    by blast
  have "nrows x0 = ?n" using x0 by (simp add: np_randint_nrows)
  then have "nrows x = ?n" using xw by (auto split: if_splits dest: add_bias_nrows)
  then have "nrows phi = ?n" using compObs_nrows[OF phi] by (simp add: map_arr_def nrows_def)
  then have "nrows B = ?n"
    using np_less_nrows[OF B] by (simp add: np_rand_col_def cumsum_axis1_def nrows_def)
  then have len: "length obs = ?n"
    using obs by (auto simp: argmax_axis1_def nrows_def split: if_splits)
  have nr: "nrows (np_full ?n ?c (0::real)) = ?n" by (simp add: np_full_def nrows_def)
  from set_cells_rows[OF y len nr] have
    "ncols y = ?c" "\<forall>k\<in>set obs. k < ?c"
    "rows y = map2 (\<lambda>row k. row[k := 1]) (replicate ?n (replicate ?c 0)) obs"
    by (simp_all add: np_full_def)
  moreover have "map2 (\<lambda>row k. row[k := 1]) (replicate ?n (replicate ?c (0::real))) obs =
      map (\<lambda>k. (replicate ?c 0)[k := 1]) obs"
    using len by (intro nth_equalityI) simp_all
  ultimately show ?thesis using len by auto
qed

section \<open>neglogli and fit never return\<close>

lemma compObs_call_bad_keyword:
  "compObs_call x w [(''normailize'', b)] = Inl TypeError"
  by (simp add: compObs_call_def)

lemma neglogli_fails: "neglogli g x w y = Inl TypeError"
  by (simp add: neglogli_def Let_def compObs_call_bad_keyword and_then_def)

lemma minimize_fails: "f x0 = Inl e \<Longrightarrow> minimize lib f x0 = Inl e"
  by (simp add: minimize_def and_then_def)

lemma fit_fails: "fit lib g x w y compHess = Inl TypeError"
  by (simp add: fit_def Let_def minimize_fails[OF neglogli_fails] and_then_def)

section \<open>The assertion of neglogli\<close>

lemma rint_of_int: "rint (of_int k) = k"
  by (simp add: rint_def)

lemma np_round2_of_nat: "np_round2 (real r) = real r"
proof -
  have "real r * 100 = of_int (int r * 100)" by simp
  then have "rint (real r * 100) = int r * 100" by (simp only: rint_of_int)
  then show ?thesis by (simp add: np_round2_def)
qed

lemma np_divide_T_rows:
  assumes phi: "has_shape phi r p"
  shows "np_divide (transpose_arr phi) (sum_axis1 phi) =
           Inr \<lparr>ncols = r, rows = map (\<lambda>j. map2 (/) (column phi j) (sum_axis1 phi)) [0..<p]\<rparr>"
proof -
  let ?v = "sum_axis1 phi"
  let ?B = "transpose_arr phi"
  have lv: "length ?v = r" using phi by (simp add: sum_axis1_def has_shape_def nrows_def)
  have nB: "ncols ?B = r" using phi by (simp add: transpose_arr_def has_shape_def)
  have bv: "broadcast_list ?v r = ?v" using lv by (rule broadcast_list_same)
  have rowsB: "rows ?B = map (column phi) [0..<p]"
    using phi by (simp add: transpose_arr_def has_shape_def)
  have lcol: "length (column phi j) = r" for j
    using phi by (simp add: column_def has_shape_def nrows_def)
  have bcol: "broadcast_list (column phi j) r = column phi j" for j
    using lcol[of j] by (rule broadcast_list_same)
  show ?thesis
    using lv nB bv by (simp add: np_divide_def Let_def bcast_ok_def bdim_def rowsB bcol)
qed

lemma np_sum_divide_T:
  fixes phi :: "real arr2"
  assumes phi: "has_shape phi r p" and nz: "\<forall>i<r. sum_list (rows phi ! i) \<noteq> 0"
  shows "np_sum \<lparr>ncols = r, rows = map (\<lambda>j. map2 (/) (column phi j) (sum_axis1 phi)) [0..<p]\<rparr> = real r"
proof -
  let ?v = "sum_axis1 phi"
  have lv: "length ?v = r" using phi by (simp add: sum_axis1_def has_shape_def nrows_def)
  have lcol: "length (column phi j) = r" for j
    using phi by (simp add: column_def has_shape_def nrows_def)
  have inner: "sum_list (map2 (/) (column phi j) ?v) = (\<Sum>i<r. cell phi i j / ?v ! i)" for j
  proof -
    have "sum_list (map2 (/) (column phi j) ?v) =
          (\<Sum>i = 0..<length (map2 (/) (column phi j) ?v). map2 (/) (column phi j) ?v ! i)"
      by (rule sum_list_sum_nth)
    also have "\<dots> = (\<Sum>i<r. cell phi i j / ?v ! i)"
      using lv lcol[of j] phi
      by (simp add: atLeast0LessThan column_def cell_def has_shape_def nrows_def)
    finally show ?thesis .
  qed
  have "np_sum \<lparr>ncols = r, rows = map (\<lambda>j. map2 (/) (column phi j) ?v) [0..<p]\<rparr> =
        (\<Sum>j<p. \<Sum>i<r. cell phi i j / ?v ! i)"
    by (simp add: np_sum_def comp_def inner interv_sum_list_conv_sum_set_nat atLeast0LessThan)
  also have "\<dots> = (\<Sum>i<r. \<Sum>j<p. cell phi i j / ?v ! i)"
    by (rule sum.swap)
  also have "\<dots> = (\<Sum>i<r. 1)"
  proof (rule sum.cong)
    fix i assume "i \<in> {..<r}"
    then have i: "i < r" by simp
    have vi: "?v ! i = sum_list (rows phi ! i)"
      using i phi by (simp add: sum_axis1_def has_shape_def nrows_def)
    have "(\<Sum>j<p. cell phi i j / ?v ! i) = (\<Sum>j<p. cell phi i j) / ?v ! i"
      by (rule sum_divide_distrib[symmetric])
    also have "(\<Sum>j<p. cell phi i j) = sum_list (rows phi ! i)"
      using phi i by (rule row_sum_cells[symmetric])
    finally show "(\<Sum>j<p. cell phi i j / ?v ! i) = 1"
      using nz i vi by simp
  qed simp
  finally show ?thesis by simp
qed

lemma sanity_check_counts_rows:
  assumes phi: "has_shape phi r p" and nz: "\<forall>i<r. sum_list (rows phi ! i) \<noteq> 0"
  shows "sanity_check phi (sum_axis1 phi) = Inr (r = 1)"
  by (simp add: sanity_check_def and_then_def np_divide_T_rows[OF phi] np_sum_divide_T[OF phi nz]
      np_round2_of_nat)

lemma assertion_passes_iff_one_row:
  assumes x: "has_shape x r k" and w: "has_shape w k p" and p: "0 < p"
  shows "\<exists>phi. compObs x w False = Inr phi \<and> sanity_check phi (sum_axis1 phi) = Inr (r = 1)"
proof -
  from compObs_unnormalized_cells[OF x w] obtain phi where
    phi: "compObs x w False = Inr phi" "has_shape phi r p"
      "\<forall>i<r. \<forall>j<p. cell phi i j = exp (\<Sum>l<k. cell x i l * cell w l j)"
    by blast
  have "sum_list (rows phi ! i) \<noteq> 0" if i: "i < r" for i
  proof -
    have "sum_list (rows phi ! i) = (\<Sum>j<p. cell phi i j)"
      using phi(2) i by (rule row_sum_cells)
    also have "\<dots> = (\<Sum>j<p. exp (\<Sum>l<k. cell x i l * cell w l j))"
      using phi(3) i by (intro sum.cong) simp_all
    also have "\<dots> > 0" using p by (intro sum_pos) (auto simp: lessThan_empty_iff)
    finally show ?thesis by simp
  qed
  then have "sanity_check phi (sum_axis1 phi) = Inr (r = 1)"
    using phi(2) by (intro sanity_check_counts_rows) simp_all
  with phi(1) show ?thesis by blast
qed

section \<open>The last lines of fit\<close>

lemma fit_finish_phi_initial:
  assumes "fit_finish lib g x w y compHess xs = Inr ((w_new, phi), g')"
  shows "compObs x w True = Inr phi"
  using assms unfolding fit_finish_def Let_def compObs_call_default
  by (auto dest!: and_then_Inr split: if_splits)

lemma np_hstack_zero_column:
  assumes "np_hstack (np_full r (Suc 0) (0::real)) F = Inr A" and "row \<in> set (rows A)"
  shows "hd row = 0"
proof -
  from assms(1) have "rows A = map2 (@) (replicate r [0]) (rows F)"
    by (auto simp: np_hstack_def np_full_def split: if_splits)
  with assms(2) obtain a f where "(a, f) \<in> set (zip (replicate r [0::real]) (rows F))" "row = a @ f"
    by auto
  moreover from this have "a = [0]" by (auto dest: set_zip_leftD)
  ultimately show "hd row = 0" by simp
qed

lemma fit_finish_column0:
  assumes "fit_finish lib g x w y compHess xs = Inr ((w_new, phi), g')"
  shows "(\<forall>row\<in>set (rows w_new). hd row = 0) \<and> glm_w_new g' = Some w_new"
  using assms unfolding fit_finish_def Let_def
  by (auto dest!: and_then_Inr intro: np_hstack_zero_column split: if_splits)



section \<open>What generate_data draws\<close>

lemma uniform_value_in_range:
  fixes lo hi u :: real
  assumes "lo \<le> hi" "0 \<le> u" "u < 1"
  shows "lo \<le> lo + (hi - lo) * u \<and> lo + (hi - lo) * u \<le> hi"
proof -
  have d: "0 \<le> hi - lo" using assms(1) by simp
  have "0 \<le> (hi - lo) * u" using d assms(2) by simp
  moreover have "(hi - lo) * u \<le> (hi - lo) * 1"
    using d assms(3) by (intro mult_left_mono) simp_all
  ultimately show ?thesis by simp
qed

lemma np_uniform_entries:
  assumes R: "numpy_rng R" and lh: "lo \<le> hi" and U: "np_uniform R off lo hi r k = Inr U"
  shows "\<forall>row\<in>set (rows U). length row = nat k \<and> (\<forall>v\<in>set row. lo \<le> v \<and> v \<le> hi)"
proof -
  from R have u: "\<And>i. 0 \<le> random_sample R i \<and> random_sample R i < 1"
    by (simp add: numpy_rng_def)
  from U have "rows U = map (\<lambda>i. map (\<lambda>j. lo + (hi - lo) * random_sample R (off + i * nat k + j))
                                   [0..<nat k]) [0..<r]"
    by (auto simp: np_uniform_def split: if_splits)
  then show ?thesis
    using uniform_value_in_range[OF lh] u by auto
qed

lemma np_uniform_shape:
  assumes U: "np_uniform R off lo hi r k = Inr U"
  shows "0 \<le> k \<and> nrows U = r \<and> ncols U = nat k \<and> (\<forall>row\<in>set (rows U). length row = nat k)"
  using U by (auto simp: np_uniform_def nrows_def split: if_splits)

lemma np_randint_entries:
  assumes R: "numpy_rng R" and x: "np_randint R lo hi r k = Inr x"
  shows "\<forall>row\<in>set (rows x). \<forall>v\<in>set row. lo \<le> v \<and> v \<le> hi - 1"
proof (cases "r * k = 0")
  case True
  with x have "rows x = replicate r []" by (auto simp: np_randint_def)
  then show ?thesis by simp
next
  case False
  with x have lh: "lo < hi"
    and rx: "rows x = map (\<lambda>i. map (\<lambda>j. random_int R lo hi (i * k + j)) [0..<k]) [0..<r]"
    by (auto simp: np_randint_def split: if_splits)
  from R lh have ri: "lo \<le> random_int R lo hi i \<and> random_int R lo hi i < hi" for i
    by (simp add: numpy_rng_def)
  have "lo \<le> random_int R lo hi i \<and> random_int R lo hi i \<le> hi - 1" for i
    using ri[of i] by linarith
  with rx show ?thesis by auto
qed


lemma set_cols_from1_rows:
  assumes U: "np_uniform R off lo hi m (int c - 1) = Inr U"
    and w0: "set_cols_from1 (np_full m c 0) U = Inr w0"
  shows "ncols w0 = c \<and> nrows w0 = m \<and> 0 < c \<and> (\<forall>row\<in>set (rows w0). \<exists>u\<in>set (rows U). row = 0 # u)"
proof -
  from np_uniform_shape[OF U] have c: "0 < c" and nU: "nrows U = m" by simp_all
  from w0 have r: "rows w0 = map2 (\<lambda>r u. take 1 r @ u) (replicate m (replicate c 0)) (rows U)"
    and nc: "ncols w0 = c"
    by (auto simp: set_cols_from1_def np_full_def split: if_splits)
  have t: "take 1 (replicate c (0::real)) = [0]" using c by (cases c) simp_all
  have "\<exists>u\<in>set (rows U). row = 0 # u" if "row \<in> set (rows w0)" for row
  proof -
    from that r obtain a u where "(a, u) \<in> set (zip (replicate m (replicate c 0)) (rows U))"
      "row = take 1 a @ u" by auto
    moreover from this have "a = replicate c 0" "u \<in> set (rows U)"
      by (auto dest: set_zip_leftD set_zip_rightD)
    ultimately show ?thesis using t by auto
  qed
  moreover have "nrows w0 = m" using r nU by (simp add: nrows_def)
  ultimately show ?thesis using nc c by blast
qed


lemma map2_times_ones:
  fixes v :: "real list"
  shows "length v = k \<Longrightarrow> map2 (*) (replicate k 1) v = v"
  by (intro nth_equalityI) simp_all

lemma add_bias_rows:
  assumes ab: "add_bias R off g wdist x w = Inr (x1, w1)" and nc: "ncols w = glm_c g"
  shows "(\<forall>row\<in>set (rows x1). \<exists>r0\<in>set (rows x). row = 1 # r0) \<and>
         (\<exists>b. np_uniform R off (fst wdist) (snd wdist) 1 (int (glm_c g) - 1) = Inr b \<and>
              (\<forall>row\<in>set (rows w1). row \<in> set (rows w) \<or> (\<exists>u\<in>set (rows b). row = 0 # u)))"
proof -
  let ?c = "glm_c g"
  from ab obtain x1' b zb row0 where
    x1: "np_hstack (np_full (nrows x) 1 1) x = Inr x1'"
    and b: "np_uniform R off (fst wdist) (snd wdist) 1 (int ?c - 1) = Inr b"
    and zb: "np_hstack (np_full 1 1 0) b = Inr zb"
    and row0: "np_multiply (np_full 1 (ncols w) 1) zb = Inr row0"
    and w1: "np_vstack row0 w = Inr (w1)" and xx: "x1' = x1"
    unfolding add_bias_def
    by (auto split: if_splits dest!: and_then_Inr)
  have X: "\<forall>row\<in>set (rows x1). \<exists>r0\<in>set (rows x). row = 1 # r0"
  proof
    fix row assume "row \<in> set (rows x1)"
    moreover from x1 xx have "rows x1 = map2 (@) (replicate (nrows x) [1]) (rows x)"
      by (auto simp: np_hstack_def np_full_def split: if_splits)
    ultimately obtain a r0 where "(a, r0) \<in> set (zip (replicate (nrows x) [1]) (rows x))"
      "row = a @ r0" by auto
    moreover from this have "a = [1]" "r0 \<in> set (rows x)"
      by (auto dest: set_zip_leftD set_zip_rightD)
    ultimately show "\<exists>r0\<in>set (rows x). row = 1 # r0" by auto
  qed
  from np_uniform_shape[OF b] have kb: "0 \<le> int ?c - 1" and nb: "nrows b = 1"
    and cb: "ncols b = nat (int ?c - 1)" and lb: "\<forall>row\<in>set (rows b). length row = nat (int ?c - 1)"
    by simp_all
  from nb obtain u where ub: "rows b = [u]"
    by (cases "rows b") (auto simp: nrows_def)
  have lu: "length u = ?c - 1" using lb ub kb by (simp add: nat_diff_distrib')
  have cpos: "0 < ?c" using kb by simp
  from zb ub have rzb: "rows zb = [0 # u]" and czb: "ncols zb = ?c"
    using cb kb cpos by (auto simp: np_hstack_def np_full_def nrows_def split: if_splits)
  have l0u: "length (0 # u) = ?c" using lu cpos by simp
  have bl: "broadcast_list [v] 1 = [v]" for v :: "real list"
    by (simp add: broadcast_list_def)
  have "rows row0 = [map2 (*) (replicate ?c 1) (0 # u)]"
    using row0 rzb czb nc l0u
    by (auto simp: np_multiply_def np_binop_def Let_def bdim_def np_full_def nrows_def
        broadcast_arr_def bl broadcast_list_same split: if_splits)
  then have rr: "rows row0 = [0 # u]"
    using map2_times_ones[OF l0u] by simp
  from w1 have "rows w1 = rows row0 @ rows w"
    by (auto simp: np_vstack_def split: if_splits)
  with rr have "\<forall>row\<in>set (rows w1). row \<in> set (rows w) \<or> (\<exists>u\<in>set (rows b). row = 0 # u)"
    using ub by auto
  with X b show ?thesis by blast
qed

section \<open>When generate_data returns\<close>

lemma first_true_le: "first_true bs \<le> length bs"
  by (induction bs) simp_all

lemma argmax_bool_less: "0 < length bs \<Longrightarrow> argmax_bool bs < length bs"
  by (simp add: argmax_bool_def)

lemma length_cumsum_from: "length (cumsum_from a vs) = length vs"
  by (induction vs arbitrary: a) simp_all

lemma has_shape_cumsum: "has_shape A r k \<Longrightarrow> has_shape (cumsum_axis1 A) r k"
  by (simp add: has_shape_def cumsum_axis1_def nrows_def wf_arr_def list_all_iff length_cumsum_from)

lemma np_less_col_shape:
  assumes C: "has_shape C r k"
  shows "\<exists>B. np_less (np_rand_col R off r) C = Inr B \<and> has_shape B r k"
proof -
  let ?u = "np_rand_col R off r"
  have nu: "nrows ?u = r" "ncols ?u = 1" by (simp_all add: np_rand_col_def nrows_def)
  have nC: "nrows C = r" "ncols C = k" using C by (simp_all add: has_shape_def)
  have bd: "bdim (nrows ?u) (nrows C) = r" "bdim (ncols ?u) (ncols C) = k"
    using nu nC by (simp_all add: bdim_def)
  have ok: "bcast_ok (nrows ?u) (nrows C)" "bcast_ok (ncols ?u) (ncols C)"
    using nu nC by (simp_all add: bcast_ok_def)
  let ?B = "\<lparr>ncols = k, rows = map2 (map2 (<)) (broadcast_arr ?u r k) (broadcast_arr C r k)\<rparr>"
  have eq: "np_less ?u C = Inr ?B"
    using ok bd by (simp add: np_less_def np_binop_def Let_def)
  have lu: "length (rows ?u) = r" using nu by (simp add: nrows_def)
  have lC: "length (rows C) = r" using nC by (simp add: nrows_def)
  have bu: "broadcast_arr ?u r k = map (\<lambda>row. broadcast_list row k) (rows ?u)"
    by (simp add: broadcast_arr_def broadcast_list_same[OF lu])
  have bC: "broadcast_arr C r k = rows C"
  proof -
    have "map (\<lambda>row. broadcast_list row k) (rows C) = map (\<lambda>row. row) (rows C)"
      using C by (intro map_cong) (auto simp: has_shape_def wf_arr_def list_all_iff broadcast_list_same)
    then show ?thesis by (simp add: broadcast_arr_def broadcast_list_same[OF lC])
  qed
  have lenu: "\<forall>row\<in>set (broadcast_arr ?u r k). length row = k"
    unfolding bu by (auto simp: np_rand_col_def broadcast_list_def)
  have lenC: "\<forall>row\<in>set (rows C). length row = k"
    using C by (simp add: has_shape_def wf_arr_def list_all_iff)
  have "has_shape ?B r k"
    unfolding has_shape_def nrows_def wf_arr_def list_all_iff
  proof (intro conjI ballI)
    show "length (rows ?B) = r" using lu lC by (simp add: bC bu)
    show "ncols ?B = k" by simp
    fix row assume "row \<in> set (rows ?B)"
    then obtain a b where ab: "(a, b) \<in> set (zip (broadcast_arr ?u r k) (rows C))"
      "row = map2 (<) a b" by (auto simp: bC)
    then have "length a = k" "length b = k"
      using lenu lenC by (auto dest: set_zip_leftD set_zip_rightD)
    then show "length row = ncols ?B" using ab(2) by simp
  qed
  with eq show ?thesis by blast
qed


lemma np_uniform_ok:
  assumes "0 < c" and "\<bar>hi - lo\<bar> < f64_overflow"
  shows "\<exists>U. np_uniform R off lo hi r (int c - 1) = Inr U \<and> has_shape U r (c - 1)"
  using assms
  by (simp add: np_uniform_def has_shape_def nrows_def wf_arr_def list_all_iff nat_diff_distrib')

lemma set_cols_from1_ok:
  assumes U: "has_shape U m (c - 1)" and c: "0 < c"
  shows "\<exists>w0. set_cols_from1 (np_full m c (0::real)) U = Inr w0 \<and> has_shape w0 m c"
proof -
  let ?w0 = "\<lparr>ncols = c, rows = map2 (\<lambda>r u. take 1 r @ u) (replicate m (replicate c (0::real))) (rows U)\<rparr>"
  have eq: "set_cols_from1 (np_full m c 0) U = Inr ?w0"
    using U by (simp add: set_cols_from1_def np_full_def has_shape_def nrows_def)
  have lU: "length (rows U) = m" and rU: "\<forall>u\<in>set (rows U). length u = c - 1"
    using U by (simp_all add: has_shape_def nrows_def wf_arr_def list_all_iff)
  have "has_shape ?w0 m c"
    unfolding has_shape_def nrows_def wf_arr_def list_all_iff
  proof (intro conjI ballI)
    show "length (rows ?w0) = m" using lU by simp
    show "ncols ?w0 = c" by simp
    fix row assume "row \<in> set (rows ?w0)"
    then obtain a u where "(a, u) \<in> set (zip (replicate m (replicate c (0::real))) (rows U))"
      "row = take 1 a @ u" by auto
    moreover from this have "a = replicate c 0" "u \<in> set (rows U)"
      by (auto dest: set_zip_leftD set_zip_rightD)
    ultimately show "length row = ncols ?w0" using rU c by auto
  qed
  with eq show ?thesis by blast
qed

lemma np_randint_ok:
  assumes "r * k = 0 \<or> (lo < hi \<and> - (2 ^ 63) \<le> lo \<and> hi \<le> 2 ^ 63)"
  shows "\<exists>x0. np_randint R lo hi r k = Inr x0 \<and> has_shape x0 r k"
  using assms
  by (auto simp: np_randint_def has_shape_def nrows_def wf_arr_def list_all_iff)

lemma argmax_axis1_ok:
  assumes B: "has_shape B r k" and k: "0 < k"
  shows "\<exists>obs. argmax_axis1 B = Inr obs \<and> length obs = r \<and> (\<forall>j\<in>set obs. j < k)"
proof -
  have "argmax_axis1 B = Inr (map argmax_bool (rows B))"
    using B k by (simp add: argmax_axis1_def has_shape_def)
  moreover have "length (map argmax_bool (rows B)) = r"
    using B by (simp add: has_shape_def nrows_def)
  moreover have "\<forall>j\<in>set (map argmax_bool (rows B)). j < k"
  proof
    fix j assume "j \<in> set (map argmax_bool (rows B))"
    then obtain bs where bs: "bs \<in> set (rows B)" "j = argmax_bool bs" by auto
    then have "length bs = k" using B by (simp add: has_shape_def wf_arr_def list_all_iff)
    then show "j < k" using argmax_bool_less[of bs] k bs(2) by simp
  qed
  ultimately show ?thesis by blast
qed

lemma set_cells_ok:
  assumes len: "length ks = r" and rng: "\<forall>k\<in>set ks. k < ncols A" and nr: "nrows A = r"
  shows "\<exists>Y. set_cells A [0..<r] ks v = Inr Y"
proof -
  have b1: "broadcast_list [0..<r] r = [0..<r]" by (rule broadcast_list_same) simp
  have b2: "broadcast_list ks r = ks" using len by (rule broadcast_list_same)
  have L: "bdim (length [0..<r]) (length ks) = r" using len by (simp add: bdim_def)
  have ok: "bcast_ok (length [0..<r]) (length ks)" using len by (simp add: bcast_ok_def)
  have "\<not> list_ex (\<lambda>ik. nrows A \<le> fst ik \<or> ncols A \<le> snd ik) (zip [0..<r] ks)"
  proof
    assume "list_ex (\<lambda>ik. nrows A \<le> fst ik \<or> ncols A \<le> snd ik) (zip [0..<r] ks)"
    then obtain i k where ik: "(i, k) \<in> set (zip [0..<r] ks)" "nrows A \<le> i \<or> ncols A \<le> k"
      by (auto simp: list_ex_iff)
    from ik(1) have "i \<in> set [0..<r]" "k \<in> set ks"
      by (auto dest: set_zip_leftD set_zip_rightD)
    with ik(2) rng nr show False by auto
  qed
  then show ?thesis
    using ok unfolding set_cells_def Let_def L b1 b2 by simp
qed

lemma add_bias_ok:
  assumes x: "has_shape x n m" and w: "has_shape w m c" and m: "2 \<le> m" and c: "0 < c"
    and gc: "glm_c g = c" and wd: "\<bar>snd wdist - fst wdist\<bar> < f64_overflow"
  shows "\<exists>x1 w1. add_bias R off g wdist x w = Inr (x1, w1) \<and>
           has_shape x1 n (m + 1) \<and> has_shape w1 (m + 1) c"
proof -
  let ?x1 = "\<lparr>ncols = 1 + m, rows = map2 (@) (replicate n [1::int]) (rows x)\<rparr>"
  have hx: "np_hstack (np_full (nrows x) 1 1) x = Inr ?x1"
    using x by (simp add: np_hstack_def np_full_def has_shape_def nrows_def)
  from np_uniform_ok[OF c wd] obtain b where
    b: "np_uniform R off (fst wdist) (snd wdist) 1 (int c - 1) = Inr b" "has_shape b 1 (c - 1)"
    by blast
  from b(2) obtain u where ub: "rows b = [u]" and lu: "length u = c - 1" and cb: "ncols b = c - 1"
    by (cases "rows b") (auto simp: has_shape_def nrows_def wf_arr_def)
  let ?zb = "\<lparr>ncols = c, rows = [0 # u]\<rparr>"
  have hzb: "np_hstack (np_full 1 1 0) b = Inr ?zb"
    using ub cb c by (simp add: np_hstack_def np_full_def nrows_def)
  have l0u: "length (0 # u) = c" using lu c by simp
  have bl: "broadcast_list [v] 1 = [v]" for v :: "real list"
    by (simp add: broadcast_list_def)
  have hrow0: "np_multiply (np_full 1 (ncols w) 1) ?zb = Inr ?zb"
    using w l0u map2_times_ones[OF l0u]
    by (simp add: np_multiply_def np_binop_def Let_def bdim_def bcast_ok_def np_full_def nrows_def
        has_shape_def broadcast_arr_def bl broadcast_list_same)
  let ?w1 = "\<lparr>ncols = c, rows = (0 # u) # rows w\<rparr>"
  have hw1: "np_vstack ?zb w = Inr ?w1"
    using w by (simp add: np_vstack_def has_shape_def)
  have eq: "add_bias R off g wdist x w = Inr (?x1, ?w1)"
    using x w m hx b(1) hzb hrow0 hw1 gc
    by (simp add: add_bias_def and_then_def has_shape_def nrows_def)
  have sx: "has_shape ?x1 n (m + 1)"
    unfolding has_shape_def nrows_def wf_arr_def list_all_iff
  proof (intro conjI ballI)
    show "length (rows ?x1) = n" using x by (simp add: has_shape_def nrows_def)
    show "ncols ?x1 = m + 1" by simp
    fix row assume "row \<in> set (rows ?x1)"
    then obtain a r0 where "(a, r0) \<in> set (zip (replicate n [1::int]) (rows x))" "row = a @ r0"
      by auto
    moreover from this have "a = [1]" "r0 \<in> set (rows x)"
      by (auto dest: set_zip_leftD set_zip_rightD)
    ultimately show "length row = ncols ?x1"
      using x by (auto simp: has_shape_def wf_arr_def list_all_iff)
  qed
  have sw: "has_shape ?w1 (m + 1) c"
    using w l0u by (auto simp: has_shape_def nrows_def wf_arr_def)
  from eq sx sw show ?thesis by blast
qed


lemma generate_data_returns:
  assumes c: "0 < glm_c g"
    and wd: "\<bar>snd wdist - fst wdist\<bar> < f64_overflow"
    and xr: "glm_n g * glm_m g = 0 \<or>
             (fst xdist < snd xdist \<and> - (2 ^ 63) \<le> fst xdist \<and> snd xdist \<le> 2 ^ 63)"
    and b: "bias \<longrightarrow> 2 \<le> glm_m g"
  shows "\<exists>x w y. generate_data R g wdist xdist bias = Inr (x, w, y)"
proof -
  let ?n = "glm_n g" and ?m = "glm_m g" and ?c = "glm_c g"
  let ?offb = "?m * (?c - 1)"
  let ?offu = "if bias then ?offb + (?c - 1) else ?offb"
  from np_uniform_ok[OF c wd] obtain U where
    U: "np_uniform R 0 (fst wdist) (snd wdist) ?m (int ?c - 1) = Inr U" "has_shape U ?m (?c - 1)"
    by blast
  from set_cols_from1_ok[OF U(2) c] obtain w0 where
    w0: "set_cols_from1 (np_full ?m ?c 0) U = Inr w0" "has_shape w0 ?m ?c" by blast
  from np_randint_ok[OF xr] obtain x0 where
    x0: "np_randint R (fst xdist) (snd xdist) ?n ?m = Inr x0" "has_shape x0 ?n ?m" by blast
  have "\<exists>x w k. (if bias then add_bias R ?offb g wdist x0 w0 else Inr (x0, w0)) = Inr (x, w) \<and>
          has_shape x ?n k \<and> has_shape w k ?c"
  proof (cases bias)
    case True
    with b have "2 \<le> ?m" by simp
    from add_bias_ok[OF x0(2) w0(2) this c refl wd, of R ?offb] True
    show ?thesis by auto
  next
    case False
    with x0(2) w0(2) show ?thesis by auto
  qed
  then obtain x w k where
    xw: "(if bias then add_bias R ?offb g wdist x0 w0 else Inr (x0, w0)) = Inr (x, w)"
    and sx: "has_shape x ?n k" and sw: "has_shape w k ?c" by blast
  have sx': "has_shape (map_arr real_of_int x) ?n k" using sx by (rule has_shape_map_arr)
  from compObs_row_sums[OF sx' sw c] obtain phi where
    phi: "compObs (map_arr real_of_int x) w True = Inr phi" "has_shape phi ?n ?c" by blast
  have sc: "has_shape (cumsum_axis1 phi) ?n ?c" using phi(2) by (rule has_shape_cumsum)
  then have nc: "nrows (cumsum_axis1 phi) = ?n" by (simp add: has_shape_def)
  from np_less_col_shape[OF sc, of R ?offu] obtain B where
    B: "np_less (np_rand_col R ?offu ?n) (cumsum_axis1 phi) = Inr B" "has_shape B ?n ?c" by blast
  from argmax_axis1_ok[OF B(2) c] obtain obs where
    obs: "argmax_axis1 B = Inr obs" "length obs = ?n" "\<forall>j\<in>set obs. j < ?c" by blast
  have "\<exists>y. set_cells (np_full ?n ?c (0::real)) [0..<?n] obs 1 = Inr y"
    using obs(2,3) by (intro set_cells_ok) (simp_all add: np_full_def nrows_def)
  then obtain y where y: "set_cells (np_full ?n ?c (0::real)) [0..<?n] obs 1 = Inr y" by blast
  have "generate_data R g wdist xdist bias = Inr (x, w, y)"
    unfolding generate_data_def Let_def compObs_call_default
    using U(1) w0(1) x0(1) xw phi(1) nc B(1) obs(1) y
    by (simp add: and_then_def)
  then show ?thesis by blast
qed

lemma generate_data_returns_only_if:
  assumes "generate_data R g wdist xdist bias = Inr (x, w, y)"
  shows "0 < glm_c g \<and> \<bar>snd wdist - fst wdist\<bar> < f64_overflow \<and>
         (glm_n g * glm_m g = 0 \<or>
          (fst xdist < snd xdist \<and> - (2 ^ 63) \<le> fst xdist \<and> snd xdist \<le> 2 ^ 63)) \<and>
         (bias \<longrightarrow> 2 \<le> glm_m g)"
proof -
  from generate_data_steps[OF assms] obtain U w0 x0 where
    U: "np_uniform R 0 (fst wdist) (snd wdist) (glm_m g) (int (glm_c g) - 1) = Inr U"
    and x0: "np_randint R (fst xdist) (snd xdist) (glm_n g) (glm_m g) = Inr x0"
    and xw: "(if bias then add_bias R (glm_m g * (glm_c g - 1)) g wdist x0 w0 else Inr (x0, w0)) = Inr (x, w)"
    by blast
  from U have "0 < glm_c g" "\<bar>snd wdist - fst wdist\<bar> < f64_overflow"
    by (auto simp: np_uniform_def split: if_splits)
  moreover from x0 have "glm_n g * glm_m g = 0 \<or>
          (fst xdist < snd xdist \<and> - (2 ^ 63) \<le> fst xdist \<and> snd xdist \<le> 2 ^ 63)"
    by (auto simp: np_randint_def split: if_splits)
  moreover have "2 \<le> glm_m g" if bias
  proof -
    from that xw have "1 < ncols x0" by (auto simp: add_bias_def split: if_splits)
    then show ?thesis using np_randint_nrows[OF x0] by simp
  qed
  ultimately show ?thesis by blast
qed

section \<open>compObs on float64 values\<close>























section \<open>A concrete run\<close>

lemma R1_ok: "numpy_rng R1"
  by (simp add: numpy_rng_def R1_def)

lemma gen_fixture:
  "generate_data R1 (init 1 2 2) (- 1 / 5, 6 / 5) (- 10, 10) True =
     Inr (\<lparr>ncols = 3, rows = [[1, - 10, - 10]]\<rparr>,
          \<lparr>ncols = 2, rows = [[0, 0], [0, 0], [0, 0]]\<rparr>,
          \<lparr>ncols = 2, rows = [[0, 1]]\<rparr>)"
  using f64_overflow_1000 by (simp add: gen_defs np_defs R1_def Let_def upt_rec eval_nat_numeral)

section \<open>The claims\<close>

text \<open>
  C1. The claim: \<open>neglogli(x, w, y)\<close> computes the unnormalised \<open>phi\<close> by calling
  \<open>compObs\<close> with \<open>normalize=False\<close> and returns the negated sum of the log
  likelihoods of the rows. The code: the call on line 79 spells the keyword
  \<open>normailize\<close>, which \<open>compObs\<close> does not accept, so every call of \<open>neglogli\<close>
  raises TypeError and none returns the scalar.
\<close>

theorem neglogli_raises_TypeError: "neglogli g x w y = Inl TypeError"
  by (rule neglogli_fails)


text \<open>
  C3. The claim: the probability matrix \<open>fit\<close> returns and stores is \<open>compObs\<close> at
  the optimised weights. The code, on the fitter \<open>GLM(1, 1, 2)\<close> with \<open>x = [[1]]\<close>,
  initial \<open>w = [[0, 0]]\<close> and \<open>y = [[0, 1]]\<close>: from the optimiser result \<open>[1]\<close>
  lines 114 to 125 return \<open>w_new = [[0, 1]]\<close> with \<open>phi = [[1/2, 1/2]]\<close>, which is
  \<open>compObs\<close> at the initial \<open>w\<close> and differs from \<open>compObs\<close> at \<open>w_new\<close>; and
  \<open>fit\<close> as a whole raises TypeError.
\<close>

theorem fit_phi_from_initial_weights:
  "fit_finish lib (init 1 1 2) \<lparr>ncols = 1, rows = [[1]]\<rparr> \<lparr>ncols = 2, rows = [[0, 0]]\<rparr>
       \<lparr>ncols = 2, rows = [[0, 1]]\<rparr> False [1] =
     Inr ((\<lparr>ncols = 2, rows = [[0, 1]]\<rparr>, \<lparr>ncols = 2, rows = [[1 / 2, 1 / 2]]\<rparr>),
          (init 1 1 2)\<lparr>glm_w_new := Some \<lparr>ncols = 2, rows = [[0, 1]]\<rparr>,
                        glm_phi := Some \<lparr>ncols = 2, rows = [[1 / 2, 1 / 2]]\<rparr>\<rparr>) \<and>
   compObs \<lparr>ncols = 1, rows = [[1]]\<rparr> \<lparr>ncols = 2, rows = [[0, 1]]\<rparr> True =
     Inr \<lparr>ncols = 2, rows = [[1 / (1 + exp 1), exp 1 / (1 + exp 1)]]\<rparr> \<and>
   (1 / 2 :: real) \<noteq> 1 / (1 + exp 1) \<and>
   fit lib (init 1 1 2) \<lparr>ncols = 1, rows = [[1]]\<rparr> \<lparr>ncols = 2, rows = [[0, 0]]\<rparr>
       \<lparr>ncols = 2, rows = [[0, 1]]\<rparr> False = Inl TypeError"
  by (simp add: fit_fails fit_finish_def np_reshape_def chop_def init_def np_defs Let_def upt_rec
      eval_nat_numeral)

text \<open>
  C4. The claim: what \<open>generate_data\<close> returns can be passed to \<open>neglogli\<close> and to
  \<open>fit\<close> on the same fitter without error, with \<open>bias=True\<close> too. The code, for
  \<open>GLM(1, 2, 2)\<close> with the default ranges and \<open>bias=True\<close>: the triple is returned,
  \<open>neglogli\<close> and \<open>fit\<close> raise TypeError on it, and the reshape of line 114 raises
  ValueError on an optimiser result of the length \<open>(m + 1) * (c - 1) = 3\<close> that the
  widened \<open>w\<close> gives. For \<open>GLM(4, 1, 2)\<close> the generator itself raises IndexError.
\<close>

theorem generated_data_rejected_by_fit:
  "generate_data R1 (init 1 2 2) (- 1 / 5, 6 / 5) (- 10, 10) True =
     Inr (\<lparr>ncols = 3, rows = [[1, - 10, - 10]]\<rparr>,
          \<lparr>ncols = 2, rows = [[0, 0], [0, 0], [0, 0]]\<rparr>,
          \<lparr>ncols = 2, rows = [[0, 1]]\<rparr>) \<and>
   neglogli (init 1 2 2) (map_arr real_of_int \<lparr>ncols = 3, rows = [[1, - 10, - 10]]\<rparr>)
       (Mat \<lparr>ncols = 2, rows = [[0, 0], [0, 0], [0, 0]]\<rparr>) \<lparr>ncols = 2, rows = [[0, 1]]\<rparr> =
     Inl TypeError \<and>
   fit lib (init 1 2 2) (map_arr real_of_int \<lparr>ncols = 3, rows = [[1, - 10, - 10]]\<rparr>)
       \<lparr>ncols = 2, rows = [[0, 0], [0, 0], [0, 0]]\<rparr> \<lparr>ncols = 2, rows = [[0, 1]]\<rparr> False =
     Inl TypeError \<and>
   fit_finish lib (init 1 2 2) (map_arr real_of_int \<lparr>ncols = 3, rows = [[1, - 10, - 10]]\<rparr>)
       \<lparr>ncols = 2, rows = [[0, 0], [0, 0], [0, 0]]\<rparr> \<lparr>ncols = 2, rows = [[0, 1]]\<rparr> False
       [0, 0, 0] = Inl ValueError \<and>
   generate_data R1 (init 4 1 2) (- 1 / 5, 6 / 5) (- 10, 10) True = Inl IndexError"
proof -
  have a: "fit_finish lib (init 1 2 2) (map_arr real_of_int \<lparr>ncols = 3, rows = [[1, - 10, - 10]]\<rparr>)
       \<lparr>ncols = 2, rows = [[0, 0], [0, 0], [0, 0]]\<rparr> \<lparr>ncols = 2, rows = [[0, 1]]\<rparr> False
       [0, 0, 0] = Inl ValueError"
    by (simp add: fit_finish_def np_reshape_def init_def and_then_def)
  have b: "generate_data R1 (init 4 1 2) (- 1 / 5, 6 / 5) (- 10, 10) True = Inl IndexError"
    using f64_overflow_1000
    by (simp add: generate_data_def init_def np_uniform_def set_cols_from1_def np_full_def
        np_randint_def add_bias_def and_then_def nrows_def Let_def)
  show ?thesis
    by (intro conjI gen_fixture neglogli_fails fit_fails a b)
qed



text \<open>
  C6. The claim: with \<open>compHess=True\<close>, \<open>fit\<close> computes and stores the standard
  errors from the inverse Hessian whenever the Hessian can be inverted. The code: every
  call of \<open>fit\<close> with \<open>compHess=True\<close> raises TypeError, whatever the numerical
  libraries would deliver.
\<close>

theorem fit_compHess_raises_TypeError: "fit lib g x w y True = Inl TypeError"
  by (rule fit_fails)




text \<open>
  C8. For a design matrix \<open>x\<close> of shape \<open>(r, k)\<close> and a weight matrix \<open>w\<close> of
  shape \<open>(k, p)\<close>, \<open>compObs(x, w, normalize=False)\<close> returns, without raising, the
  array of shape \<open>(r, p)\<close> whose entry \<open>(i, j)\<close> is the exponential of the entry
  \<open>(i, j)\<close> of the matrix product \<open>x @ w\<close>, and nothing else is done to it.
\<close>

theorem compObs_unnormalized_is_exp:
  assumes "has_shape x r k" and "has_shape w k p"
  shows "\<exists>phi. compObs x w False = Inr phi \<and> has_shape phi r p \<and>
           (\<forall>i<r. \<forall>j<p. cell phi i j = exp (\<Sum>l<k. cell x i l * cell w l j))"
  using assms by (rule compObs_unnormalized_cells)

theorem compObs_unnormalized_is_exp_witness:
  "has_shape \<lparr>ncols = 1, rows = [[1], [2::real]]\<rparr> 2 1 \<and>
   has_shape \<lparr>ncols = 2, rows = [[0, 1::real]]\<rparr> 1 2 \<and>
   compObs \<lparr>ncols = 1, rows = [[1], [2]]\<rparr> \<lparr>ncols = 2, rows = [[0, 1]]\<rparr> False =
     Inr \<lparr>ncols = 2, rows = [[1, exp 1], [1, exp 2]]\<rparr>"
proof -
  let ?x = "\<lparr>ncols = 1, rows = [[1], [2::real]]\<rparr>"
  let ?w = "\<lparr>ncols = 2, rows = [[0, 1::real]]\<rparr>"
  have hx: "has_shape ?x 2 1" by (simp add: has_shape_def nrows_def wf_arr_def)
  have hw: "has_shape ?w 1 2" by (simp add: has_shape_def nrows_def wf_arr_def)
  from compObs_unnormalized_is_exp[OF hx hw] obtain phi where
    phi: "compObs ?x ?w False = Inr phi" "has_shape phi 2 2"
      "\<forall>i<2. \<forall>j<2. cell phi i j = exp (\<Sum>l<1. cell ?x i l * cell ?w l j)"
    by blast
  have "compObs ?x ?w False = Inr \<lparr>ncols = 2, rows = [[1, exp 1], [1, exp 2]]\<rparr>"
    by (simp add: compObs_def and_then_def matmul_def nrows_def map_arr_def dot_def column_def
        upt_rec)
  with hx hw show ?thesis by simp
qed

text \<open>
  C9. Whenever \<open>generate_data\<close> returns \<open>(x, w, y)\<close>, \<open>y\<close> has shape \<open>(n, c)\<close>
  and each of its rows has exactly one entry equal to 1, at an index below \<open>c\<close>, and
  0 everywhere else. (Lemmas \<open>generate_data_returns\<close> and
  \<open>generate_data_returns_only_if\<close> above say which calls return.)
\<close>

theorem generate_data_one_hot:
  assumes "generate_data R g wdist xdist bias = Inr (x, w, y)"
  shows "has_shape y (glm_n g) (glm_c g) \<and>
         (\<forall>i<glm_n g. \<exists>k<glm_c g. cell y i k = 1 \<and> (\<forall>j<glm_c g. j \<noteq> k \<longrightarrow> cell y i j = 0))"
proof -
  from generate_data_obs[OF assms] obtain obs where
    len: "length obs = glm_n g" and rng: "\<forall>k\<in>set obs. k < glm_c g"
    and nc: "ncols y = glm_c g"
    and ry: "rows y = map (\<lambda>k. (replicate (glm_c g) 0)[k := 1]) obs"
    by blast
  have sh: "has_shape y (glm_n g) (glm_c g)"
    using len nc ry by (simp add: has_shape_def nrows_def wf_arr_def list_all_iff)
  have "\<exists>k<glm_c g. cell y i k = 1 \<and> (\<forall>j<glm_c g. j \<noteq> k \<longrightarrow> cell y i j = 0)"
    if i: "i < glm_n g" for i
  proof -
    have k: "obs ! i < glm_c g" using rng i len by simp
    have row: "rows y ! i = (replicate (glm_c g) 0)[obs ! i := 1]"
      using ry i len by simp
    have "cell y i (obs ! i) = 1" using k by (simp add: cell_def row)
    moreover have "\<forall>j<glm_c g. j \<noteq> obs ! i \<longrightarrow> cell y i j = 0"
      by (simp add: cell_def row)
    ultimately show ?thesis using k by blast
  qed
  with sh show ?thesis by blast
qed

theorem generate_data_one_hot_witness:
  "generate_data R1 (init 1 2 2) (- 1 / 5, 6 / 5) (- 10, 10) True =
     Inr (\<lparr>ncols = 3, rows = [[1, - 10, - 10]]\<rparr>,
          \<lparr>ncols = 2, rows = [[0, 0], [0, 0], [0, 0]]\<rparr>,
          \<lparr>ncols = 2, rows = [[0, 1]]\<rparr>) \<and>
   has_shape \<lparr>ncols = 2, rows = [[0, 1::real]]\<rparr> 1 2 \<and>
   (\<exists>k<2. cell \<lparr>ncols = 2, rows = [[0, 1::real]]\<rparr> 0 k = 1 \<and>
      (\<forall>j<2. j \<noteq> k \<longrightarrow> cell \<lparr>ncols = 2, rows = [[0, 1::real]]\<rparr> 0 j = 0))"
proof -
  note g = gen_fixture
  have "has_shape \<lparr>ncols = 2, rows = [[0, 1::real]]\<rparr> 1 2 \<and>
   (\<exists>k<2. cell \<lparr>ncols = 2, rows = [[0, 1::real]]\<rparr> 0 k = 1 \<and>
      (\<forall>j<2. j \<noteq> k \<longrightarrow> cell \<lparr>ncols = 2, rows = [[0, 1::real]]\<rparr> 0 j = 0))"
    using generate_data_one_hot[OF g] by (simp add: init_def)
  with g show ?thesis by blast
qed

text \<open>
  C10, as amended. Whenever \<open>generate_data\<close> returns \<open>(x, w, y)\<close> from a random
  source that keeps numpy's contract: every sampled entry of \<open>x\<close> (all of \<open>x\<close> but
  the column of ones in front when \<open>bias\<close> holds) lies in
  \<open>[xdist[0], xdist[1] - 1]\<close>; with \<open>bias\<close> column 0 of \<open>x\<close> is 1; column 0 of
  \<open>w\<close> is 0; and when \<open>wdist[0] \<le> wdist[1]\<close> every sampled weight (columns 1 on,
  the bias row included) lies in \<open>[wdist[0], wdist[1]]\<close>, the upper end included:
  it is what \<open>np.random.uniform\<close> returns when the two bounds are equal.
\<close>

theorem generate_data_sampling_ranges:
  assumes R: "numpy_rng R" and gen: "generate_data R g wdist xdist bias = Inr (x, w, y)"
  shows "(\<forall>v\<in>set (sampled_features bias x). fst xdist \<le> v \<and> v \<le> snd xdist - 1) \<and>
         (bias \<longrightarrow> (\<forall>row\<in>set (rows x). hd row = 1)) \<and>
         (\<forall>row\<in>set (rows w). hd row = 0) \<and>
         (fst wdist \<le> snd wdist \<longrightarrow>
            (\<forall>v\<in>set (sampled_weights w). fst wdist \<le> v \<and> v \<le> snd wdist))"
proof -
  let ?c = "glm_c g"
  from generate_data_steps[OF gen] obtain U w0 x0 where
    U: "np_uniform R 0 (fst wdist) (snd wdist) (glm_m g) (int ?c - 1) = Inr U"
    and w0: "set_cols_from1 (np_full (glm_m g) ?c 0) U = Inr w0"
    and x0: "np_randint R (fst xdist) (snd xdist) (glm_n g) (glm_m g) = Inr x0"
    and xw: "(if bias then add_bias R (glm_m g * (?c - 1)) g wdist x0 w0 else Inr (x0, w0)) = Inr (x, w)"
    by blast
  from set_cols_from1_rows[OF U w0] have
    nc0: "ncols w0 = ?c" and r0: "\<forall>row\<in>set (rows w0). \<exists>u\<in>set (rows U). row = 0 # u"
    by simp_all
  have X0: "\<forall>row\<in>set (rows x0). \<forall>v\<in>set row. fst xdist \<le> v \<and> v \<le> snd xdist - 1"
    using R x0 by (rule np_randint_entries)
  have xs: "\<forall>row\<in>set (rows x). (if bias then \<exists>r0\<in>set (rows x0). row = 1 # r0
                                    else row \<in> set (rows x0))"
    and ws: "\<exists>b. (bias \<longrightarrow> np_uniform R (glm_m g * (?c - 1)) (fst wdist) (snd wdist) 1 (int ?c - 1) = Inr b) \<and>
               (\<forall>row\<in>set (rows w). row \<in> set (rows w0) \<or> (bias \<and> (\<exists>u\<in>set (rows b). row = 0 # u)))"
  proof -
    show "\<forall>row\<in>set (rows x). (if bias then \<exists>r0\<in>set (rows x0). row = 1 # r0
                                    else row \<in> set (rows x0))"
    proof (cases bias)
      case True
      with xw have "add_bias R (glm_m g * (?c - 1)) g wdist x0 w0 = Inr (x, w)" by simp
      from add_bias_rows[OF this nc0] True show ?thesis by simp
    next
      case False
      with xw show ?thesis by simp
    qed
    show "\<exists>b. (bias \<longrightarrow> np_uniform R (glm_m g * (?c - 1)) (fst wdist) (snd wdist) 1 (int ?c - 1) = Inr b) \<and>
               (\<forall>row\<in>set (rows w). row \<in> set (rows w0) \<or> (bias \<and> (\<exists>u\<in>set (rows b). row = 0 # u)))"
    proof (cases bias)
      case True
      with xw have "add_bias R (glm_m g * (?c - 1)) g wdist x0 w0 = Inr (x, w)" by simp
      from add_bias_rows[OF this nc0] True show ?thesis by blast
    next
      case False
      with xw show ?thesis by simp
    qed
  qed
  from ws obtain b where
    b: "bias \<longrightarrow> np_uniform R (glm_m g * (?c - 1)) (fst wdist) (snd wdist) 1 (int ?c - 1) = Inr b"
    and wr: "\<forall>row\<in>set (rows w). row \<in> set (rows w0) \<or> (bias \<and> (\<exists>u\<in>set (rows b). row = 0 # u))"
    by blast
  have P1: "\<forall>v\<in>set (sampled_features bias x). fst xdist \<le> v \<and> v \<le> snd xdist - 1"
  proof
    fix v assume "v \<in> set (sampled_features bias x)"
    then obtain row where row: "row \<in> set (rows x)" "v \<in> set (if bias then drop 1 row else row)"
      unfolding sampled_features_def by (cases bias) auto
    with xs obtain r0 where "r0 \<in> set (rows x0)" "v \<in> set r0"
      by (cases bias) auto
    with X0 show "fst xdist \<le> v \<and> v \<le> snd xdist - 1" by blast
  qed
  have P2: "bias \<longrightarrow> (\<forall>row\<in>set (rows x). hd row = 1)"
    using xs by fastforce
  have P3: "\<forall>row\<in>set (rows w). hd row = 0"
    using wr r0 by fastforce
  have P4: "\<forall>v\<in>set (sampled_weights w). fst wdist \<le> v \<and> v \<le> snd wdist"
    if lh: "fst wdist \<le> snd wdist"
  proof
    fix v assume "v \<in> set (sampled_weights w)"
    then obtain row where row: "row \<in> set (rows w)" "v \<in> set (drop 1 row)"
      by (auto simp: sampled_weights_def)
    from wr row(1) consider (old) "row \<in> set (rows w0)"
      | (new) "bias" "\<exists>u\<in>set (rows b). row = 0 # u" by blast
    then show "fst wdist \<le> v \<and> v \<le> snd wdist"
    proof cases
      case old
      with r0 obtain u where "u \<in> set (rows U)" "row = 0 # u" by blast
      with row(2) np_uniform_entries[OF R lh U] show ?thesis by auto
    next
      case new
      then obtain u where u: "u \<in> set (rows b)" "row = 0 # u" by blast
      from new(1) b have "np_uniform R (glm_m g * (?c - 1)) (fst wdist) (snd wdist) 1 (int ?c - 1) = Inr b"
        by simp
      from np_uniform_entries[OF R lh this] u row(2) show ?thesis by auto
    qed
  qed
  from P1 P2 P3 P4 show ?thesis by blast
qed

theorem generate_data_sampling_ranges_witness:
  "numpy_rng R1 \<and>
   generate_data R1 (init 1 2 2) (- 1 / 5, 6 / 5) (5, 10) True =
     Inr (\<lparr>ncols = 3, rows = [[1, 5, 5]]\<rparr>,
          \<lparr>ncols = 2, rows = [[0, 0], [0, 0], [0, 0]]\<rparr>,
          \<lparr>ncols = 2, rows = [[0, 1]]\<rparr>) \<and>
   (- 1 / 5 :: real) \<le> 6 / 5 \<and>
   sampled_features True \<lparr>ncols = 3, rows = [[1, 5, 5]]\<rparr> = [5, 5] \<and>
   list_all (\<lambda>v. 5 \<le> v \<and> v \<le> 10 - 1) (sampled_features True \<lparr>ncols = 3, rows = [[1, 5, 5]]\<rparr>) \<and>
   sampled_weights \<lparr>ncols = 2, rows = [[0, 0], [0, 0], [0, 0]]\<rparr> = [0, 0, 0] \<and>
   list_all (\<lambda>v. - 1 / 5 \<le> v \<and> v \<le> 6 / 5)
     (sampled_weights \<lparr>ncols = 2, rows = [[0, 0], [0, 0], [0, 0]]\<rparr>)"
proof -
  have a: "generate_data R1 (init 1 2 2) (- 1 / 5, 6 / 5) (5, 10) True =
     Inr (\<lparr>ncols = 3, rows = [[1, 5, 5]]\<rparr>,
          \<lparr>ncols = 2, rows = [[0, 0], [0, 0], [0, 0]]\<rparr>,
          \<lparr>ncols = 2, rows = [[0, 1]]\<rparr>)"
    using f64_overflow_1000 by (simp add: gen_defs np_defs R1_def Let_def upt_rec eval_nat_numeral)
  from generate_data_sampling_ranges[OF R1_ok a]
  have "list_all (\<lambda>v. 5 \<le> v \<and> v \<le> 10 - 1) (sampled_features True \<lparr>ncols = 3, rows = [[1, 5, 5]]\<rparr>)"
    and "list_all (\<lambda>v. - 1 / 5 \<le> v \<and> v \<le> 6 / 5)
     (sampled_weights \<lparr>ncols = 2, rows = [[0, 0], [0, 0], [0, 0]]\<rparr>)"
    by (simp_all add: list_all_iff)
  moreover have "(- 1 / 5 :: real) \<le> 6 / 5"
    "sampled_features True \<lparr>ncols = 3, rows = [[1, 5, 5]]\<rparr> = [5, 5]"
    "sampled_weights \<lparr>ncols = 2, rows = [[0, 0], [0, 0], [0, 0]]\<rparr> = [0, 0, 0]"
    by (simp_all add: sampled_features_def sampled_weights_def)
  ultimately show ?thesis
    using R1_ok a by blast
qed

text \<open>
  C10 as stated fails: with \<open>bias=True\<close> and \<open>xdist = (5, 10)\<close> the returned \<open>x\<close>
  has the entry 1 in column 0, below \<open>xdist[0]\<close>; and with \<open>wdist = (1, 1)\<close> the
  sampled weights are 1, which is not below \<open>wdist[1]\<close>.
\<close>

theorem generate_data_entries_counterexample:
  "numpy_rng R1 \<and>
   generate_data R1 (init 1 2 2) (- 1 / 5, 6 / 5) (5, 10) True =
     Inr (\<lparr>ncols = 3, rows = [[1, 5, 5]]\<rparr>,
          \<lparr>ncols = 2, rows = [[0, 0], [0, 0], [0, 0]]\<rparr>,
          \<lparr>ncols = 2, rows = [[0, 1]]\<rparr>) \<and>
   cell \<lparr>ncols = 3, rows = [[1, 5, 5 :: int]]\<rparr> 0 0 = 1 \<and>
   \<not> (fst (5 :: int, 10 :: int) \<le> cell \<lparr>ncols = 3, rows = [[1, 5, 5 :: int]]\<rparr> 0 0) \<and>
   generate_data R1 (init 1 2 2) (1, 1) (0, 1) False =
     Inr (\<lparr>ncols = 2, rows = [[0, 0]]\<rparr>,
          \<lparr>ncols = 2, rows = [[0, 1], [0, 1]]\<rparr>,
          \<lparr>ncols = 2, rows = [[1, 0]]\<rparr>) \<and>
   cell \<lparr>ncols = 2, rows = [[0, 1], [0, 1 :: real]]\<rparr> 0 1 = 1 \<and>
   \<not> (cell \<lparr>ncols = 2, rows = [[0, 1], [0, 1 :: real]]\<rparr> 0 1 < snd (1 :: real, 1 :: real))"
proof -
  have a: "generate_data R1 (init 1 2 2) (- 1 / 5, 6 / 5) (5, 10) True =
     Inr (\<lparr>ncols = 3, rows = [[1, 5, 5]]\<rparr>,
          \<lparr>ncols = 2, rows = [[0, 0], [0, 0], [0, 0]]\<rparr>,
          \<lparr>ncols = 2, rows = [[0, 1]]\<rparr>)"
    using f64_overflow_1000 by (simp add: gen_defs np_defs R1_def Let_def upt_rec eval_nat_numeral)
  have b: "generate_data R1 (init 1 2 2) (1, 1) (0, 1) False =
     Inr (\<lparr>ncols = 2, rows = [[0, 0]]\<rparr>,
          \<lparr>ncols = 2, rows = [[0, 1], [0, 1]]\<rparr>,
          \<lparr>ncols = 2, rows = [[1, 0]]\<rparr>)"
    using f64_overflow_1000 by (simp add: gen_defs np_defs R1_def Let_def upt_rec eval_nat_numeral)
  have c: "cell \<lparr>ncols = 3, rows = [[1, 5, 5 :: int]]\<rparr> 0 0 = 1"
    "\<not> (fst (5 :: int, 10 :: int) \<le> cell \<lparr>ncols = 3, rows = [[1, 5, 5 :: int]]\<rparr> 0 0)"
    "cell \<lparr>ncols = 2, rows = [[0, 1], [0, 1 :: real]]\<rparr> 0 1 = 1"
    "\<not> (cell \<lparr>ncols = 2, rows = [[0, 1], [0, 1 :: real]]\<rparr> 0 1 < snd (1 :: real, 1 :: real))"
    by (simp_all add: cell_def)
  show ?thesis by (intro conjI R1_ok a b c)
qed

end
